theory Spec2Isabelle
  imports Complex_Main "HOL-Library.Word" "HOL-Library.Multiset"
begin

unbundle bit_operations_syntax

section \<open>JavaScript arithmetic used by the occupancy engine\<close>

text \<open>
  The grid words of \<^verbatim>\<open>tag2cloud.ts\<close> only ever pass through the 32-bit operators
  \<^verbatim>\<open>& | ~ << >>>\<close>, so they are modelled as 32-bit words. Pixel coordinates are forced to
  integers by \<^verbatim>\<open>>> 0\<close> and \<^verbatim>\<open>Math.floor\<close> and are modelled as \<open>int\<close>.
\<close>

type_synonym word32 = "32 word"

text \<open>Division truncating towards zero: \<^verbatim>\<open>(a / b) >> 0\<close> on integers in range.\<close>

definition tdiv :: "int \<Rightarrow> int \<Rightarrow> int" where
  "tdiv a b = sgn a * sgn b * (\<bar>a\<bar> div \<bar>b\<bar>)"

text \<open>The remainder operator \<^verbatim>\<open>a % b\<close>: the sign follows the dividend.\<close>

definition js_rem :: "int \<Rightarrow> int \<Rightarrow> int" where
  "js_rem a b = sgn a * (\<bar>a\<bar> mod \<bar>b\<bar>)"

text \<open>
  \<^verbatim>\<open>w << c\<close> and \<^verbatim>\<open>w >>> c\<close>: the shift count is taken modulo 32
  (\<^verbatim>\<open>ToUint32(c) & 31\<close>), also for a negative count.
\<close>

definition shl32 :: "word32 \<Rightarrow> int \<Rightarrow> word32" where
  "shl32 w c = push_bit (nat (c mod 32)) w"

definition ushr32 :: "word32 \<Rightarrow> int \<Rightarrow> word32" where
  "ushr32 w c = drop_bit (nat (c mod 32)) w"

text \<open>
  An array read \<^verbatim>\<open>a[k]\<close>: \<open>None\<close> is \<^verbatim>\<open>undefined\<close>, which is what a dense array
  gives for a negative index and for an index past its end.
\<close>

definition js_index :: "'a list \<Rightarrow> int \<Rightarrow> 'a option" where
  "js_index a k = (if 0 \<le> k \<and> k < int (length a) then Some (a ! nat k) else None)"

section \<open>Data model\<close>

text \<open>
  The options that the occupancy engine and the layout read. The canvas size is a count of
  pixels; \<^verbatim>\<open>pixelRatio\<close> is rounded by the constructor to an integer that is at least 1,
  which the theorems about cells assume as \<open>1 \<le> pixelRatio opts\<close>.
\<close>

record Options =
  width :: int
  height :: int
  pixelRatio :: int
  lightThreshold :: real
  opacityThreshold :: real
  minFontSize :: real
  maxFontSize :: real
  angleFrom :: real
  angleTo :: real
  angleCount :: real
  cut :: bool

text \<open>
  The \<^verbatim>\<open>ImageData\<close> of the canvas: four bytes (red, green, blue, alpha) per pixel, row
  by row.
\<close>

record ImageData =
  data :: "int list"
  width :: nat
  height :: nat

text \<open>
  A bit grid: the pixel extent and one list of 32-bit words per row of cells. It is the type
  of the global occupancy grid and of the mask of one tag.
\<close>

record Pixels =
  width :: int
  height :: int
  data :: "word32 list list"

section \<open>Collision test and merge: \<^verbatim>\<open>tryPlaceTag\<close>\<close>

text \<open>
  The bit-aligned window of the grid row \<open>yData\<close> under mask word \<open>j\<close>
  (the expression tested against \<^verbatim>\<open>data[i][j]\<close> in the first pass).
\<close>

definition window :: "Options \<Rightarrow> word32 list \<Rightarrow> int \<Rightarrow> int \<Rightarrow> nat \<Rightarrow> word32" where
  "window opts yData xx offset j =
     (let fix = (if offset \<noteq> 0 then - 1 else 0 :: word32);
          out = (if cut opts then 0 else - 1 :: word32);
          current = (case js_index yData (xx + int j) of None \<Rightarrow> out | Some w \<Rightarrow> w);
          next = (case js_index yData (xx + int j + 1) of None \<Rightarrow> out | Some w \<Rightarrow> w) AND fix
      in shl32 current offset OR ushr32 next (32 - offset))"

text \<open>The row \<^verbatim>\<open>thisData[k] === undefined ? [] : thisData[k]\<close>.\<close>

definition rowOrEmpty :: "word32 list list \<Rightarrow> int \<Rightarrow> word32 list" where
  "rowOrEmpty thisData k = (case js_index thisData k of None \<Rightarrow> [] | Some r \<Rightarrow> r)"

text \<open>
  First pass: does some mask word meet its window? This is the loop nest that returns
  false; it only reads the grid. \<^verbatim>\<open>Math.floor(x / pixelRatio)\<close> is the floor division
  of integers.
\<close>

definition collides :: "Options \<Rightarrow> word32 list list \<Rightarrow> word32 list list \<Rightarrow> int \<Rightarrow> int \<Rightarrow> bool" where
  "collides opts thisData mdata x y =
     (let pixelsX = x div pixelRatio opts;
          pixelsY = y div pixelRatio opts;
          offset = js_rem pixelsX 32;
          xx = pixelsX div 32
      in list_ex (\<lambda>i.
           list_ex (\<lambda>j. window opts (rowOrEmpty thisData (pixelsY + int i)) xx offset j
                           AND (mdata ! i ! j) \<noteq> 0)
             [0..<length (mdata ! i)])
           [0..<length mdata])"

text \<open>Second pass, one mask word: the two guarded \<^verbatim>\<open>|=\<close> assignments.\<close>

definition mergeWord :: "word32 list \<Rightarrow> int \<Rightarrow> int \<Rightarrow> word32 \<Rightarrow> nat \<Rightarrow> word32 list" where
  "mergeWord yData xx offset target j =
     (let y1 = (case js_index yData (xx + int j) of
                  None \<Rightarrow> yData
                | Some w \<Rightarrow> yData[nat (xx + int j) := w OR ushr32 target offset])
      in case js_index y1 (xx + int j + 1) of
           None \<Rightarrow> y1
         | Some w \<Rightarrow> if offset \<noteq> 0
                     then y1[nat (xx + int j + 1) := w OR shl32 target (32 - offset)]
                     else y1)"

definition mergeRow :: "word32 list \<Rightarrow> word32 list \<Rightarrow> int \<Rightarrow> int \<Rightarrow> word32 list" where
  "mergeRow yData mrow xx offset =
     fold (\<lambda>j yd. mergeWord yd xx offset (mrow ! j) j) [0..<length mrow] yData"

text \<open>
  Second pass, mask row \<open>i\<close>. A mask row that falls outside the grid is merged into the
  fresh array \<^verbatim>\<open>[]\<close>, where both guards fail, so the grid keeps its rows.
\<close>

definition mergeRowAt ::
  "word32 list list \<Rightarrow> int \<Rightarrow> int \<Rightarrow> int \<Rightarrow> nat \<Rightarrow> word32 list list \<Rightarrow> word32 list list" where
  "mergeRowAt mdata pixelsY xx offset i thisData =
     (case js_index thisData (pixelsY + int i) of
        None \<Rightarrow> thisData
      | Some yData \<Rightarrow>
          thisData[nat (pixelsY + int i) := mergeRow yData (mdata ! i) xx offset])"

definition mergeRows ::
  "word32 list list \<Rightarrow> word32 list list \<Rightarrow> int \<Rightarrow> int \<Rightarrow> int \<Rightarrow> word32 list list" where
  "mergeRows thisData mdata pixelsY xx offset =
     fold (mergeRowAt mdata pixelsY xx offset) [0..<length mdata] thisData"

text \<open>
  \<^verbatim>\<open>tryPlaceTag(pixels, x, y)\<close> on the grid \<^verbatim>\<open>this.pixels\<close>: the grid after the call
  and the returned boolean.
\<close>

definition tryPlaceTag :: "Options \<Rightarrow> Pixels \<Rightarrow> Pixels \<Rightarrow> int \<Rightarrow> int \<Rightarrow> Pixels \<times> bool" where
  "tryPlaceTag opts thisPixels pixels x y =
     (if collides opts (Pixels.data thisPixels) (Pixels.data pixels) x y
      then (thisPixels, False)
      else (let pixelsX = x div pixelRatio opts;
                pixelsY = y div pixelRatio opts;
                offset = js_rem pixelsX 32;
                xx = pixelsX div 32
            in (thisPixels\<lparr>Pixels.data :=
                   mergeRows (Pixels.data thisPixels) (Pixels.data pixels) pixelsY xx offset\<rparr>,
                True)))"

subsection \<open>Cells of a bitmap\<close>

text \<open>
  \<^verbatim>\<open>getPixelsFromImgData\<close> stores the downsampled cell of column \<open>c\<close> in word
  \<open>c div 32\<close> at bit \<open>31 - c mod 32\<close> (\<^verbatim>\<open>1 << -(pixelX + 1)\<close>): the most
  significant bit is the leftmost cell. \<open>inkAt\<close> reads a cell of a mask, \<open>inGrid\<close>
  says that a cell lies in a stored word of the grid, \<open>occupied\<close> that it is stored and set.
\<close>

definition inkAt :: "word32 list list \<Rightarrow> nat \<Rightarrow> nat \<Rightarrow> bool" where
  "inkAt d c r \<longleftrightarrow>
     r < length d \<and> c div 32 < length (d ! r) \<and> bit (d ! r ! (c div 32)) (31 - c mod 32)"

definition inGrid :: "word32 list list \<Rightarrow> int \<Rightarrow> int \<Rightarrow> bool" where
  "inGrid d c r \<longleftrightarrow>
     0 \<le> r \<and> r < int (length d) \<and> 0 \<le> c \<and> c div 32 < int (length (d ! nat r))"

definition occupied :: "word32 list list \<Rightarrow> int \<Rightarrow> int \<Rightarrow> bool" where
  "occupied d c r \<longleftrightarrow>
     inGrid d c r \<and> bit (d ! nat r ! nat (c div 32)) (nat (31 - c mod 32))"

text \<open>What the collision test sees at column \<open>c\<close> of a grid row: the stored bit, or
  the \<^verbatim>\<open>out\<close> value where the row has no word.\<close>

definition cellBit :: "Options \<Rightarrow> word32 list \<Rightarrow> int \<Rightarrow> bool" where
  "cellBit opts yData c =
     (case js_index yData (c div 32) of
        None \<Rightarrow> \<not> cut opts
      | Some w \<Rightarrow> bit w (nat (31 - c mod 32)))"

text \<open>The bits that mask word \<open>j\<close> adds to grid word \<open>k\<close> of its row in the second pass.\<close>

definition contrib :: "int \<Rightarrow> int \<Rightarrow> word32 \<Rightarrow> nat \<Rightarrow> nat \<Rightarrow> word32" where
  "contrib xx offset target j k =
     (if int k = xx + int j then ushr32 target offset else 0) OR
     (if int k = xx + int j + 1 \<and> offset \<noteq> 0 then shl32 target (32 - offset) else 0)"

section \<open>Bit-grid creation and downsampling\<close>

text \<open>
  \<^verbatim>\<open>Math.ceil(a / b)\<close> for integers and a positive divisor. The constructor rounds
  \<^verbatim>\<open>pixelRatio\<close> to an integer that is at least 1.
\<close>

definition ceil_div :: "int \<Rightarrow> int \<Rightarrow> int" where
  "ceil_div a b = - ((- a) div b)"

text \<open>
  \<^verbatim>\<open>generatePixels(width, height, fill, forTag)\<close>. Every row is a fresh array of
  \<open>len\<close> words \<open>fill\<close> whose last word is \<open>tailFill\<close>. (For \<open>len = 0\<close> the
  assignment \<^verbatim>\<open>xData[len - 1] = tailFill\<close> adds a property \<^verbatim>\<open>"-1"\<close>, not an element.
  For a negative \<open>len\<close> the source raises a RangeError in \<^verbatim>\<open>new Array(len)\<close>; this happens
  in the constructor already, so no instance with such options exists.)
\<close>

definition generatePixels :: "Options \<Rightarrow> int \<Rightarrow> int \<Rightarrow> word32 \<Rightarrow> bool \<Rightarrow> Pixels" where
  "generatePixels opts w h fill forTag =
     (let pixelXLength = ceil_div w (pixelRatio opts);
          pixelYLength = ceil_div h (pixelRatio opts);
          len = ceil_div pixelXLength 32;
          tailOffset = js_rem pixelXLength 32;
          tailFill = (if forTag \<or> tailOffset = 0 then fill
                      else if cut opts then fill AND shl32 (- 1) (32 - tailOffset)
                      else fill OR ushr32 (- 1) tailOffset);
          xData = (if 0 < len then (replicate (nat len) fill)[nat (len - 1) := tailFill]
                   else [])
      in \<lparr> Pixels.width = w, Pixels.height = h,
           Pixels.data = replicate (nat pixelYLength) xData \<rparr>)"

text \<open>
  Comparisons and sums with a value read from the image buffer. A read past the end of the
  buffer gives \<^verbatim>\<open>undefined\<close>; then \<^verbatim>\<open><\<close> and \<^verbatim>\<open>>\<close> are false and \<^verbatim>\<open>+\<close> is NaN.
\<close>

definition undefLess :: "int option \<Rightarrow> real \<Rightarrow> bool" where
  "undefLess v t = (case v of None \<Rightarrow> False | Some a \<Rightarrow> real_of_int a < t)"

definition undefGreater :: "int option \<Rightarrow> real \<Rightarrow> bool" where
  "undefGreater v t = (case v of None \<Rightarrow> False | Some a \<Rightarrow> t < real_of_int a)"

definition undefAdd :: "int option \<Rightarrow> int option \<Rightarrow> int option" where
  "undefAdd a b =
     (case a of None \<Rightarrow> None | Some x \<Rightarrow> (case b of None \<Rightarrow> None | Some y \<Rightarrow> Some (x + y)))"

text \<open>
  The body of the innermost loop at buffer position \<open>pos\<close>: true when neither
  \<^verbatim>\<open>continue\<close> is taken, that is when the cell is marked and the scan of the cell ends.
\<close>

definition inkAtPos :: "int list \<Rightarrow> real \<Rightarrow> real \<Rightarrow> int \<Rightarrow> bool" where
  "inkAtPos d opacityTh lightTh pos =
     (let opacity = js_index d (pos + 3) in
      if undefLess opacity opacityTh then False
      else let light = undefAdd (undefAdd (js_index d pos) (js_index d (pos + 1)))
                         (js_index d (pos + 2))
           in \<not> undefGreater light lightTh)"

text \<open>The labelled scan \<^verbatim>\<open>outer: while (y < yLength)\<close> of one cell: is the cell marked?\<close>

definition cellInk :: "Options \<Rightarrow> ImageData \<Rightarrow> real \<Rightarrow> real \<Rightarrow> int \<Rightarrow> int \<Rightarrow> bool" where
  "cellInk opts img opacityTh lightTh pixelX pixelY =
     (let pr = pixelRatio opts;
          w = int (ImageData.width img);
          h = int (ImageData.height img);
          dataXLength = 4 * w;
          pixelXLength = ceil_div w pr;
          pixelYLength = ceil_div h pr;
          edgeXLength = (if js_rem w pr \<noteq> 0 then js_rem w pr else pr);
          edgeYLength = (if js_rem h pr \<noteq> 0 then js_rem h pr else pr);
          outerOffset = pixelY * pr * dataXLength + 4 * (pixelX * pr);
          xLength = (if pixelX = pixelXLength - 1 then edgeXLength else pr);
          yLength = (if pixelY = pixelYLength - 1 then edgeYLength else pr)
      in list_ex (\<lambda>y. list_ex (\<lambda>x.
             inkAtPos (ImageData.data img) opacityTh lightTh
               (outerOffset + int y * dataXLength + 4 * int x))
           [0..<nat xLength]) [0..<nat yLength])"

text \<open>
  The marking of cell \<open>(pixelX, pixelY)\<close>: with a non-zero \<open>fill\<close> the bit is cleared
  (\<^verbatim>\<open>&= ~(1 << -(pixelX + 1))\<close>), with \<open>fill = 0\<close> it is set. The grid comes from
  \<^verbatim>\<open>generatePixels\<close> for the same image, so both indices are in range.
\<close>

definition markCell :: "word32 \<Rightarrow> word32 list list \<Rightarrow> int \<Rightarrow> int \<Rightarrow> word32 list list" where
  "markCell fill pixelsData pixelX pixelY =
     (let xIndex = nat (tdiv pixelX 32);
          row = pixelsData ! nat pixelY;
          m = shl32 1 (- (pixelX + 1))
      in pixelsData[nat pixelY :=
           row[xIndex := (if fill \<noteq> 0 then row ! xIndex AND NOT m else row ! xIndex OR m)]])"

text \<open>The loop \<^verbatim>\<open>while (pixelCount--)\<close> over the cells, row by row.\<close>

fun cellLoop ::
  "Options \<Rightarrow> ImageData \<Rightarrow> real \<Rightarrow> real \<Rightarrow> word32 \<Rightarrow> nat \<Rightarrow> int \<Rightarrow> int \<Rightarrow> word32 list list
     \<Rightarrow> word32 list list" where
  "cellLoop opts img opacityTh lightTh fill 0 pixelX pixelY pixelsData = pixelsData"
| "cellLoop opts img opacityTh lightTh fill (Suc pixelCount) pixelX pixelY pixelsData =
     (let pixelsData' = (if cellInk opts img opacityTh lightTh pixelX pixelY
                         then markCell fill pixelsData pixelX pixelY else pixelsData);
          pixelXLength = ceil_div (int (ImageData.width img)) (pixelRatio opts)
      in if pixelX + 1 = pixelXLength
         then cellLoop opts img opacityTh lightTh fill pixelCount 0 (pixelY + 1) pixelsData'
         else cellLoop opts img opacityTh lightTh fill pixelCount (pixelX + 1) pixelY pixelsData')"

definition getPixelsFromImgData ::
  "Options \<Rightarrow> ImageData \<Rightarrow> real \<Rightarrow> real \<Rightarrow> word32 \<Rightarrow> bool \<Rightarrow> Pixels" where
  "getPixelsFromImgData opts img opacityTh lightTh fill forTag =
     (let w = int (ImageData.width img);
          h = int (ImageData.height img);
          pixels = generatePixels opts w h fill forTag;
          pixelXLength = ceil_div w (pixelRatio opts);
          pixelYLength = ceil_div h (pixelRatio opts);
          pixelCount = pixelXLength * pixelYLength
      in \<lparr> Pixels.width = w, Pixels.height = h,
           Pixels.data = cellLoop opts img opacityTh lightTh fill (nat pixelCount) 0 0
                            (Pixels.data pixels) \<rparr>)"

text \<open>
  \<^verbatim>\<open>loadMaskImage\<close>: \<open>imgData\<close> is what the canvas returns for the mask image drawn at
  the canvas size.
\<close>

definition loadMaskImage :: "Options \<Rightarrow> ImageData \<Rightarrow> Pixels" where
  "loadMaskImage opts imgData =
     getPixelsFromImgData opts imgData (opacityThreshold opts) (lightThreshold opts) (- 1) False"

subsection \<open>Vocabulary for the downsampling\<close>

text \<open>An image buffer holds four bytes per pixel.\<close>

definition wfImage :: "ImageData \<Rightarrow> bool" where
  "wfImage img \<longleftrightarrow>
     length (ImageData.data img) = 4 * ImageData.width img * ImageData.height img"

text \<open>The ink predicate on the pixel \<open>(px, py)\<close>: opaque enough and dark enough.\<close>

definition inkPredicate :: "ImageData \<Rightarrow> real \<Rightarrow> real \<Rightarrow> int \<Rightarrow> int \<Rightarrow> bool" where
  "inkPredicate img opacityTh lightTh px py =
     (let d = ImageData.data img;
          pos = nat (4 * (py * int (ImageData.width img) + px))
      in opacityTh \<le> real_of_int (d ! (pos + 3)) \<and>
         real_of_int (d ! pos + d ! (pos + 1) + d ! (pos + 2)) \<le> lightTh)"

text \<open>The number of source pixels scanned along one axis of cell \<open>cx\<close>.\<close>

definition edgeLen :: "int \<Rightarrow> int \<Rightarrow> int \<Rightarrow> int" where
  "edgeLen w pr cx =
     (if cx = ceil_div w pr - 1 then (if js_rem w pr \<noteq> 0 then js_rem w pr else pr) else pr)"

text \<open>A grid of \<open>H\<close> rows, each with the words for \<open>W\<close> cells.\<close>

definition gridShape :: "word32 list list \<Rightarrow> int \<Rightarrow> int \<Rightarrow> bool" where
  "gridShape d W H \<longleftrightarrow>
     int (length d) = H \<and> (\<forall>i<length d. int (length (d ! i)) = ceil_div W 32)"

text \<open>The position of cell \<open>(c, r)\<close> in the row-by-row order of the cell loop.\<close>

definition lin :: "int \<Rightarrow> int \<Rightarrow> int \<Rightarrow> int" where
  "lin W c r = r * W + c"

text \<open>
  A grid of the canvas of the options whose cells to the right of the canvas, in the last
  word of each row, are occupied. \<^verbatim>\<open>generatePixels\<close> and \<^verbatim>\<open>loadMaskImage\<close> create
  such grids when \<open>cut\<close> is false, and \<^verbatim>\<open>tryPlaceTag\<close> keeps them so.
\<close>

definition canvasGrid :: "Options \<Rightarrow> word32 list list \<Rightarrow> bool" where
  "canvasGrid opts d \<longleftrightarrow>
     (let W = ceil_div (Options.width opts) (pixelRatio opts);
          H = ceil_div (Options.height opts) (pixelRatio opts)
      in gridShape d W H \<and>
         list_all (\<lambda>r. list_all (\<lambda>c. occupied d c r) [W..32 * ceil_div W 32 - 1]) [0..H - 1])"

section \<open>Spiral placement search: \<^verbatim>\<open>placeTag\<close>\<close>

text \<open>
  The inner loop \<^verbatim>\<open>while (rest--)\<close> of the x phase. It returns the grid, the last
  \<open>x\<close> and whether a position was accepted. For a negative \<open>rest\<close> the
  countdown never reaches 0, so the loops are partial functions: \<open>None\<close> stands for
  a search that does not return.
\<close>

partial_function (option) xLoop ::
  "Options \<Rightarrow> Pixels \<Rightarrow> int \<Rightarrow> int \<Rightarrow> int \<Rightarrow> int \<Rightarrow> Pixels \<Rightarrow> (Pixels \<times> int \<times> bool) option" where
  "xLoop opts pixels xDir y rest x thisPixels =
     (if rest = 0 then Some (thisPixels, x, False)
      else if x + xDir * pixelRatio opts < - Pixels.width pixels
              \<or> x + xDir * pixelRatio opts > Options.width opts
      then xLoop opts pixels xDir y (rest - 1) (x + xDir * pixelRatio opts) thisPixels
      else if snd (tryPlaceTag opts thisPixels pixels (x + xDir * pixelRatio opts) y)
      then Some (fst (tryPlaceTag opts thisPixels pixels (x + xDir * pixelRatio opts) y),
                 x + xDir * pixelRatio opts, True)
      else xLoop opts pixels xDir y (rest - 1) (x + xDir * pixelRatio opts)
             (fst (tryPlaceTag opts thisPixels pixels (x + xDir * pixelRatio opts) y)))"

text \<open>The inner loop of the y phase.\<close>

partial_function (option) yLoop ::
  "Options \<Rightarrow> Pixels \<Rightarrow> int \<Rightarrow> int \<Rightarrow> int \<Rightarrow> int \<Rightarrow> Pixels \<Rightarrow> (Pixels \<times> int \<times> bool) option" where
  "yLoop opts pixels yDir x rest y thisPixels =
     (if rest = 0 then Some (thisPixels, y, False)
      else if y + yDir * pixelRatio opts < - Pixels.height pixels
              \<or> y + yDir * pixelRatio opts > Options.height opts
      then yLoop opts pixels yDir x (rest - 1) (y + yDir * pixelRatio opts) thisPixels
      else if snd (tryPlaceTag opts thisPixels pixels x (y + yDir * pixelRatio opts))
      then Some (fst (tryPlaceTag opts thisPixels pixels x (y + yDir * pixelRatio opts)),
                 y + yDir * pixelRatio opts, True)
      else yLoop opts pixels yDir x (rest - 1) (y + yDir * pixelRatio opts)
             (fst (tryPlaceTag opts thisPixels pixels x (y + yDir * pixelRatio opts))))"

declare xLoop.simps [code]
declare yLoop.simps [code]

text \<open>
  One phase of a ring: when the other coordinate is outside the canvas band the whole run
  is skipped in one jump, otherwise the inner loop probes it cell by cell.
\<close>

definition xPhase ::
  "Options \<Rightarrow> Pixels \<Rightarrow> int \<Rightarrow> int \<Rightarrow> int \<Rightarrow> int \<Rightarrow> Pixels \<Rightarrow> (Pixels \<times> int \<times> bool) option" where
  "xPhase opts pixels xDir y rest x thisPixels =
     (if y < - Pixels.height pixels \<or> y > Options.height opts
      then Some (thisPixels, x + xDir * pixelRatio opts * rest, False)
      else xLoop opts pixels xDir y rest x thisPixels)"

definition yPhase ::
  "Options \<Rightarrow> Pixels \<Rightarrow> int \<Rightarrow> int \<Rightarrow> int \<Rightarrow> int \<Rightarrow> Pixels \<Rightarrow> (Pixels \<times> int \<times> bool) option" where
  "yPhase opts pixels yDir x rest y thisPixels =
     (if x < - Pixels.width pixels \<or> x > Options.width opts
      then Some (thisPixels, y + yDir * pixelRatio opts * rest, False)
      else yLoop opts pixels yDir x rest y thisPixels)"

text \<open>
  The length of the y run, \<^verbatim>\<open>(step * whRate) >> 0\<close> with
  \<^verbatim>\<open>whRate = height / width\<close>. The source multiplies doubles; the model divides
  exactly and truncates, which gives the same count unless the rounding of the double
  product crosses an integer. For \<open>width = 0\<close> the source has Infinity or NaN, which
  \<^verbatim>\<open>>> 0\<close> turns into 0, as the model's division does.
\<close>

definition whRest :: "Options \<Rightarrow> int \<Rightarrow> int" where
  "whRest opts step = tdiv (step * Options.height opts) (Options.width opts)"

text \<open>
  The loop \<^verbatim>\<open>while (step >> 1 < endLen)\<close>. It returns the grid and the accepted
  position, \<open>None\<close> for \<^verbatim>\<open>[NaN, NaN]\<close>.
\<close>

function spiral ::
  "Options \<Rightarrow> Pixels \<Rightarrow> int \<Rightarrow> int \<Rightarrow> int \<Rightarrow> int \<Rightarrow> int \<Rightarrow> int \<Rightarrow> Pixels
     \<Rightarrow> (Pixels \<times> (int \<times> int) option) option" where
  "spiral opts pixels endLen step xDir yDir x y thisPixels =
     (if \<not> step div 2 < endLen then Some (thisPixels, None)
      else case xPhase opts pixels xDir y step x thisPixels of
        None \<Rightarrow> None
      | Some (g1, x1, found1) \<Rightarrow>
          if found1 then Some (g1, Some (x1, y))
          else (case yPhase opts pixels yDir x1 (whRest opts step) y g1 of
                  None \<Rightarrow> None
                | Some (g2, y2, found2) \<Rightarrow>
                    if found2 then Some (g2, Some (x1, y2))
                    else spiral opts pixels endLen (step + 1) (- xDir) (- yDir) x1 y2 g2))"
  by pat_completeness auto
termination
  by (relation "measure (\<lambda>(opts, pixels, endLen, step, xDir, yDir, x, y, g). nat (2 * endLen - step))")
    auto

declare spiral.simps [simp del]

text \<open>
  \<^verbatim>\<open>placeTag(pixels)\<close>. The two directions are the results of
  \<^verbatim>\<open>Math.random() < 0.5 ? 1 : -1\<close>.
\<close>

definition placeTag ::
  "Options \<Rightarrow> Pixels \<Rightarrow> int \<Rightarrow> int \<Rightarrow> Pixels \<Rightarrow> (Pixels \<times> (int \<times> int) option) option" where
  "placeTag opts pixels xDir yDir thisPixels =
     (let startX = tdiv (Options.width opts - Pixels.width pixels) 2;
          startY = tdiv (Options.height opts - Pixels.height pixels) 2;
          endLen = tdiv (max (max (max startX (Options.width opts - startX)) startY)
                           (Options.height opts - startY) + pixelRatio opts) (pixelRatio opts)
      in case tryPlaceTag opts thisPixels pixels startX startY of
           (g, True) \<Rightarrow> Some (g, Some (startX, startY))
         | (g, False) \<Rightarrow> spiral opts pixels endLen 1 xDir yDir startX startY g)"

subsection \<open>The positions that the search probes\<close>

text \<open>
  The sequence of positions handed to \<^verbatim>\<open>tryPlaceTag\<close> depends on the options, the
  size of the mask and the two directions only, not on the grid. The following functions
  list it in the order of the search.
\<close>

fun xProbes :: "Options \<Rightarrow> Pixels \<Rightarrow> int \<Rightarrow> int \<Rightarrow> nat \<Rightarrow> int \<Rightarrow> (int \<times> int) list" where
  "xProbes opts pixels xDir y 0 x = []"
| "xProbes opts pixels xDir y (Suc n) x =
     (if x + xDir * pixelRatio opts < - Pixels.width pixels
         \<or> x + xDir * pixelRatio opts > Options.width opts
      then [] else [(x + xDir * pixelRatio opts, y)])
     @ xProbes opts pixels xDir y n (x + xDir * pixelRatio opts)"

fun yProbes :: "Options \<Rightarrow> Pixels \<Rightarrow> int \<Rightarrow> int \<Rightarrow> nat \<Rightarrow> int \<Rightarrow> (int \<times> int) list" where
  "yProbes opts pixels yDir x 0 y = []"
| "yProbes opts pixels yDir x (Suc n) y =
     (if y + yDir * pixelRatio opts < - Pixels.height pixels
         \<or> y + yDir * pixelRatio opts > Options.height opts
      then [] else [(x, y + yDir * pixelRatio opts)])
     @ yProbes opts pixels yDir x n (y + yDir * pixelRatio opts)"

definition xPhaseProbes :: "Options \<Rightarrow> Pixels \<Rightarrow> int \<Rightarrow> int \<Rightarrow> int \<Rightarrow> int \<Rightarrow> (int \<times> int) list" where
  "xPhaseProbes opts pixels xDir y rest x =
     (if y < - Pixels.height pixels \<or> y > Options.height opts then []
      else xProbes opts pixels xDir y (nat rest) x)"

definition yPhaseProbes :: "Options \<Rightarrow> Pixels \<Rightarrow> int \<Rightarrow> int \<Rightarrow> int \<Rightarrow> int \<Rightarrow> (int \<times> int) list" where
  "yPhaseProbes opts pixels yDir x rest y =
     (if x < - Pixels.width pixels \<or> x > Options.width opts then []
      else yProbes opts pixels yDir x (nat rest) y)"

function spiralProbes ::
  "Options \<Rightarrow> Pixels \<Rightarrow> int \<Rightarrow> int \<Rightarrow> int \<Rightarrow> int \<Rightarrow> int \<Rightarrow> int \<Rightarrow> (int \<times> int) list" where
  "spiralProbes opts pixels endLen step xDir yDir x y =
     (if \<not> step div 2 < endLen then []
      else xPhaseProbes opts pixels xDir y step x
         @ yPhaseProbes opts pixels yDir (x + xDir * pixelRatio opts * step) (whRest opts step) y
         @ spiralProbes opts pixels endLen (step + 1) (- xDir) (- yDir)
             (x + xDir * pixelRatio opts * step)
             (y + yDir * pixelRatio opts * whRest opts step))"
  by pat_completeness auto
termination
  by (relation "measure (\<lambda>(opts, pixels, endLen, step, xDir, yDir, x, y). nat (2 * endLen - step))")
    auto

declare spiralProbes.simps [simp del]

definition placeProbes :: "Options \<Rightarrow> Pixels \<Rightarrow> int \<Rightarrow> int \<Rightarrow> (int \<times> int) list" where
  "placeProbes opts pixels xDir yDir =
     (let startX = tdiv (Options.width opts - Pixels.width pixels) 2;
          startY = tdiv (Options.height opts - Pixels.height pixels) 2;
          endLen = tdiv (max (max (max startX (Options.width opts - startX)) startY)
                           (Options.height opts - startY) + pixelRatio opts) (pixelRatio opts)
      in (startX, startY) # spiralProbes opts pixels endLen 1 xDir yDir startX startY)"

text \<open>Is position \<open>p\<close> accepted on the grid, and the outcome of the first accepted
  position of a list: the merged grid and the position, or the untouched grid.\<close>

definition accepts :: "Options \<Rightarrow> Pixels \<Rightarrow> Pixels \<Rightarrow> int \<times> int \<Rightarrow> bool" where
  "accepts opts thisPixels pixels p = snd (tryPlaceTag opts thisPixels pixels (fst p) (snd p))"

definition firstAccepted ::
  "Options \<Rightarrow> Pixels \<Rightarrow> Pixels \<Rightarrow> (int \<times> int) list \<Rightarrow> Pixels \<times> (int \<times> int) option" where
  "firstAccepted opts thisPixels pixels ps =
     (case find (accepts opts thisPixels pixels) ps of
        None \<Rightarrow> (thisPixels, None)
      | Some p \<Rightarrow> (fst (tryPlaceTag opts thisPixels pixels (fst p) (snd p)), Some p))"

definition loopResult ::
  "Options \<Rightarrow> Pixels \<Rightarrow> Pixels \<Rightarrow> (int \<times> int) list \<Rightarrow> (int \<times> int \<Rightarrow> int) \<Rightarrow> int
     \<Rightarrow> Pixels \<times> int \<times> bool" where
  "loopResult opts thisPixels pixels ps coord final =
     (case find (accepts opts thisPixels pixels) ps of
        None \<Rightarrow> (thisPixels, final, False)
      | Some p \<Rightarrow> (fst (tryPlaceTag opts thisPixels pixels (fst p) (snd p)), coord p, True))"

section \<open>Layout orchestrator: \<^verbatim>\<open>draw\<close>, \<^verbatim>\<open>performDraw\<close>, \<^verbatim>\<open>handleTag\<close>, \<^verbatim>\<open>clear\<close>\<close>

text \<open>
  Weights, font sizes and angles are JavaScript numbers; they are modelled as exact reals.
  \<open>None\<close> in \<open>x\<close> and \<open>y\<close> of a result is NaN.
\<close>

record Tag =
  "text" :: string
  weight :: real
  angle :: "real option"
  color :: "string option"

record TagData =
  "text" :: string
  weight :: real
  angle :: real
  color :: string
  fontSize :: int
  x :: "int option"
  y :: "int option"
  rendered :: bool

text \<open>
  The state of a \<^verbatim>\<open>Tag2Cloud\<close> instance that the layout reads and writes: the grid, the
  weight range (\<open>None\<close> is the initial \<^verbatim>\<open>Infinity\<close> of \<^verbatim>\<open>minTagWeight\<close>) and the
  promise that \<^verbatim>\<open>draw\<close> awaits, taken at the moment it has settled.
\<close>

datatype promise = Resolved | Rejected

datatype error = MaskSourceFailure

record State =
  pixels :: Pixels
  maxTagWeight :: real
  minTagWeight :: "real option"
  promised :: promise

text \<open>
  What the environment contributes to one call of \<^verbatim>\<open>handleTag\<close>: the image that the
  canvas returns for the rotated, padded tag (its size is the bounding box
  \<^verbatim>\<open>pixelWidth\<close> \<times> \<^verbatim>\<open>pixelHeight\<close>), and the results of \<^verbatim>\<open>Math.random\<close>: the angle
  bucket, the colour, and the two comparisons \<^verbatim>\<open>Math.random() < 0.5\<close> of
  \<^verbatim>\<open>placeTag\<close>. The canvas is assumed to return an image for every tag.
\<close>

record Probe =
  imgData :: ImageData
  randomNum :: int
  randomColor :: string
  randomX :: bool
  randomY :: bool

text \<open>The outcome of loading the mask image of the options, if there is one.\<close>

datatype maskLoad = NoMask | Loaded ImageData | LoadFailed

text \<open>\<^verbatim>\<open>getTagPixels\<close>: \<open>None\<close> is \<^verbatim>\<open>null\<close>, the tag is larger than the canvas.\<close>

definition getTagPixels :: "Options \<Rightarrow> ImageData \<Rightarrow> Pixels option" where
  "getTagPixels opts img =
     (let pixelWidth = int (ImageData.width img);
          pixelHeight = int (ImageData.height img)
      in if pixelHeight > Options.height opts \<or> pixelWidth > Options.width opts then None
         else Some (getPixelsFromImgData opts img 2 (255 * 3) 0 True))"

text \<open>
  The font size of \<^verbatim>\<open>handleTag\<close>. With \<^verbatim>\<open>minTagWeight = Infinity\<close> the difference is
  \<^verbatim>\<open>-Infinity\<close>, which is not positive.
\<close>

definition fontSizeOf :: "Options \<Rightarrow> State \<Rightarrow> real \<Rightarrow> int" where
  "fontSizeOf opts st w =
     (case minTagWeight st of
        None \<Rightarrow> round ((maxFontSize opts + minFontSize opts) / 2)
      | Some minW \<Rightarrow>
          (let diffWeight = maxTagWeight st - minW
           in if diffWeight > 0
              then round (minFontSize opts
                     + (maxFontSize opts - minFontSize opts) * ((w - minW) / diffWeight))
              else round ((maxFontSize opts + minFontSize opts) / 2)))"

text \<open>
  \<^verbatim>\<open>handleTag(tag)\<close>: the state after the call and the result. The result is \<open>None\<close>
  when the placement search does not return.
\<close>

definition handleTag :: "Options \<Rightarrow> State \<Rightarrow> Tag \<Rightarrow> Probe \<Rightarrow> (State \<times> TagData) option" where
  "handleTag opts st tag probe =
     (let fontSize = fontSizeOf opts st (Tag.weight tag);
          angle = (case Tag.angle tag of
                     None \<Rightarrow> if angleCount opts = 1 then angleFrom opts
                             else angleFrom opts
                                    + (real_of_int (randomNum probe) / (angleCount opts - 1))
                                      * (angleTo opts - angleFrom opts)
                   | Some a \<Rightarrow> a);
          color = (case Tag.color tag of None \<Rightarrow> randomColor probe | Some c \<Rightarrow> c);
          result = \<lparr> TagData.text = Tag.text tag, TagData.weight = Tag.weight tag,
                     TagData.angle = angle, TagData.color = color, fontSize = fontSize,
                     x = None, y = None, rendered = False \<rparr>
      in case getTagPixels opts (imgData probe) of
           None \<Rightarrow> Some (st, result)
         | Some tagPixels \<Rightarrow>
             (case placeTag opts tagPixels (if randomX probe then 1 else - 1)
                     (if randomY probe then 1 else - 1) (pixels st) of
                None \<Rightarrow> None
              | Some (g, None) \<Rightarrow> Some (st \<lparr> pixels := g \<rparr>, result)
              | Some (g, Some (px, py)) \<Rightarrow>
                  Some (st \<lparr> pixels := g \<rparr>,
                        result \<lparr> x := Some (tdiv (2 * px + Pixels.width tagPixels) 2),
                                 y := Some (tdiv (2 * py + Pixels.height tagPixels) 2),
                                 rendered := True \<rparr>)))"

text \<open>
  The loop of \<^verbatim>\<open>performDraw\<close> from index \<open>i\<close> on. The calls of \<^verbatim>\<open>layout\<close> and the
  yields to the host only draw what is in the results and are left out.
\<close>

fun drawLoop ::
  "Options \<Rightarrow> (nat \<Rightarrow> Probe) \<Rightarrow> nat \<Rightarrow> Tag list \<Rightarrow> State \<Rightarrow> (State \<times> TagData list) option" where
  "drawLoop opts env i [] st = Some (st, [])"
| "drawLoop opts env i (tag # rest) st =
     (case handleTag opts st tag (env i) of
        None \<Rightarrow> None
      | Some (st1, tagData) \<Rightarrow>
          (case drawLoop opts env (Suc i) rest st1 of
             None \<Rightarrow> None
           | Some (st2, result) \<Rightarrow> Some (st2, tagData # result)))"

text \<open>
  \<^verbatim>\<open>tags.sort((a, b) => b.weight - a.weight)\<close>: a stable sort by descending weight
  (\<^verbatim>\<open>Array.prototype.sort\<close> is stable since ECMAScript 2019).
\<close>

definition sortTags :: "Tag list \<Rightarrow> Tag list" where
  "sortTags tags = sort_key (\<lambda>t. - Tag.weight t) tags"

text \<open>
  \<^verbatim>\<open>performDraw(tags)\<close>: the state, the results, and the caller's array, which
  \<^verbatim>\<open>sort\<close> has sorted in place.
\<close>

definition performDraw ::
  "Options \<Rightarrow> (nat \<Rightarrow> Probe) \<Rightarrow> Tag list \<Rightarrow> State \<Rightarrow> (State \<times> TagData list \<times> Tag list) option" where
  "performDraw opts env tags st =
     (case drawLoop opts env 0 (sortTags tags) st of
        None \<Rightarrow> None
      | Some (st', result) \<Rightarrow> Some (st', result, sortTags tags))"

text \<open>One round of the first loop of \<^verbatim>\<open>draw\<close>.\<close>

definition observeWeight :: "Tag \<Rightarrow> State \<Rightarrow> State" where
  "observeWeight tag st =
     (let w = Tag.weight tag;
          st1 = (if w > maxTagWeight st then st \<lparr> maxTagWeight := w \<rparr> else st)
      in case minTagWeight st1 of
           None \<Rightarrow> st1 \<lparr> minTagWeight := Some w \<rparr>
         | Some m \<Rightarrow> if w < m then st1 \<lparr> minTagWeight := Some w \<rparr> else st1)"

text \<open>
  \<^verbatim>\<open>draw(tags)\<close>: \<open>Inl\<close> is the rejection of the awaited promise, \<open>Inr\<close> the state,
  the results and the caller's array after the call.
\<close>

definition draw ::
  "Options \<Rightarrow> (nat \<Rightarrow> Probe) \<Rightarrow> Tag list \<Rightarrow> State
     \<Rightarrow> (error + State \<times> TagData list \<times> Tag list) option" where
  "draw opts env tags st =
     (if tags = [] then Some (Inr (st, [], tags))
      else case promised st of
             Rejected \<Rightarrow> Some (Inl MaskSourceFailure)
           | Resolved \<Rightarrow>
               (case performDraw opts env tags (fold observeWeight tags st) of
                  None \<Rightarrow> None
                | Some r \<Rightarrow> Some (Inr r)))"

text \<open>
  \<^verbatim>\<open>initPixels\<close>, seen when the load of the mask image has settled: without a mask image
  the grid is created empty; with one the grid is replaced when the image has loaded.
\<close>

definition initPixels :: "Options \<Rightarrow> maskLoad \<Rightarrow> State \<Rightarrow> State" where
  "initPixels opts maskImage st =
     (case maskImage of
        NoMask \<Rightarrow>
          st \<lparr> pixels := generatePixels opts (Options.width opts) (Options.height opts) 0 False \<rparr>
      | Loaded img \<Rightarrow> st \<lparr> pixels := loadMaskImage opts img, promised := Resolved \<rparr>
      | LoadFailed \<Rightarrow> st \<lparr> promised := Rejected \<rparr>)"


text \<open>The state after the constructor: the field initialisers, then \<^verbatim>\<open>initPixels\<close>.\<close>

definition newCloud :: "Options \<Rightarrow> maskLoad \<Rightarrow> State" where
  "newCloud opts maskImage =
     initPixels opts maskImage
       \<lparr> pixels = \<lparr> Pixels.width = 0, Pixels.height = 0, Pixels.data = [] \<rparr>,
         maxTagWeight = 0, minTagWeight = None, promised = Resolved \<rparr>"

subsection \<open>Example inputs\<close>

definition optsDefault :: Options where
  "optsDefault = \<lparr> Options.width = 200, Options.height = 200, pixelRatio = 4,
     lightThreshold = 382, opacityThreshold = 255, minFontSize = 10, maxFontSize = 100,
     angleFrom = - 60, angleTo = 60, angleCount = 3, cut = False \<rparr>"

definition mkPixels :: "int \<Rightarrow> int \<Rightarrow> word32 list list \<Rightarrow> Pixels" where
  "mkPixels w h d = \<lparr> Pixels.width = w, Pixels.height = h, Pixels.data = d \<rparr>"

definition opts1 :: Options where
  "opts1 = optsDefault \<lparr> pixelRatio := 1 \<rparr>"

definition mkImage :: "nat \<Rightarrow> nat \<Rightarrow> int list \<Rightarrow> ImageData" where
  "mkImage w h d = \<lparr> ImageData.data = d, ImageData.width = w, ImageData.height = h \<rparr>"

text \<open>A 1\<times>1 image with one opaque black pixel.\<close>

definition blackDot :: ImageData where
  "blackDot = mkImage 1 1 [0, 0, 0, 255]"

text \<open>An 8\<times>8 canvas, which has 2\<times>2 cells, in both boundary modes.\<close>

definition exOpts8 :: Options where
  "exOpts8 = optsDefault \<lparr> Options.width := 8, Options.height := 8 \<rparr>"


definition mkTag :: "string \<Rightarrow> real \<Rightarrow> Tag" where
  "mkTag s w =
     \<lparr> Tag.text = s, Tag.weight = w, Tag.angle = Some 0, Tag.color = Some ''#000000'' \<rparr>"

text \<open>A 4\<times>4 tag image of opaque black pixels, and a 16\<times>4 one, too wide for an 8\<times>8 canvas.\<close>

definition dotProbe :: Probe where
  "dotProbe = \<lparr> imgData = mkImage 4 4 (concat (replicate 16 [0, 0, 0, 255])), randomNum = 0,
                 randomColor = ''#123456'', randomX = True, randomY = True \<rparr>"


text \<open>An environment that answers every tag with the 4\<times>4 image.\<close>

definition dotEnv :: "nat \<Rightarrow> Probe" where
  "dotEnv i = dotProbe"

definition exTags :: "Tag list" where
  "exTags = [mkTag ''a'' 1, mkTag ''b'' 3, mkTag ''c'' 2]"

text \<open>A fresh instance on an 8\<times>8 canvas without a mask image, and the same after
  the weight loop of \<^verbatim>\<open>draw\<close> has seen one tag of weight 5.\<close>

definition fresh8 :: State where
  "fresh8 = newCloud exOpts8 NoMask"





section \<open>Properties of the collision test and merge\<close>

text \<open>
  The shift counts. The remainder \<^verbatim>\<open>pixelsX % 32\<close> is negative for a negative
  \<^verbatim>\<open>pixelsX\<close>, but a shift takes its count modulo 32, so both shifts of the window
  are the ones for the non-negative remainder \<open>pixelsX mod 32\<close>.
\<close>

lemma js_rem_mod32: "js_rem a 32 mod 32 = a mod 32"
  unfolding js_rem_def sgn_if by (auto simp: zmod_zminus1_eq_if)

lemma js_rem_eq0: "js_rem a 32 = 0 \<longleftrightarrow> a mod 32 = 0"
  unfolding js_rem_def sgn_if by (auto simp: zmod_zminus1_eq_if)

lemma js_rem_compl: "(32 - js_rem a 32) mod 32 = (32 - a mod 32) mod 32"
  by (metis js_rem_mod32 mod_diff_right_eq)

lemma ushr_count:
  assumes "a mod 32 \<noteq> 0"
  shows "nat ((32 - js_rem a 32) mod 32) = 32 - nat (a mod 32)"
proof -
  have "0 \<le> a mod 32" "a mod 32 < 32"
    by (rule pos_mod_sign, simp) (rule pos_mod_bound, simp)
  then have "0 < a mod 32" "a mod 32 < 32"
    using assms by linarith+
  then have "(32 - a mod 32) mod 32 = 32 - a mod 32"
    by (intro mod_pos_pos_trivial) simp_all
  then have "(32 - js_rem a 32) mod 32 = 32 - a mod 32"
    using js_rem_compl[of a] by (simp only:)
  then show ?thesis
    using \<open>0 < a mod 32\<close> by (simp only: nat_diff_distrib) simp
qed

lemma ushr32_compl:
  assumes "a mod 32 \<noteq> 0"
  shows "ushr32 w (32 - js_rem a 32) = drop_bit (32 - nat (a mod 32)) w"
  unfolding ushr32_def ushr_count[OF assms] by (rule refl)

lemma bit32_high: "32 \<le> n \<Longrightarrow> \<not> bit (w :: word32) n"
  using bit_imp_le_length[of w n] by auto

lemma divmod32_unique:
  fixes q r :: int
  assumes "0 \<le> r" "r < 32" "c = r + q * 32"
  shows "c div 32 = q" "c mod 32 = r"
  using assms by simp_all

lemma cell_hi:
  fixes q m b :: int
  assumes "0 \<le> m" "m \<le> b" "b < 32"
  shows "(32 * q + m + 31 - b) div 32 = q" "(32 * q + m + 31 - b) mod 32 = m + 31 - b"
  by (rule divmod32_unique[where r="m + 31 - b" and q=q]; use assms in simp)+

lemma cell_lo:
  fixes q m b :: int
  assumes "0 \<le> b" "b < m" "m < 32"
  shows "(32 * q + m + 31 - b) div 32 = q + 1" "(32 * q + m + 31 - b) mod 32 = m - 1 - b"
  by (rule divmod32_unique[where r="m - 1 - b" and q="q+1"]; use assms in simp)+

text \<open>
  Bit \<open>b\<close> of the window under mask word \<open>j\<close> is what the grid row shows at the
  cell where that bit of the mask lies.
\<close>

lemma window_bit:
  assumes "b < 32"
  shows "bit (window opts yData (px div 32) (js_rem px 32) j) b
         \<longleftrightarrow> cellBit opts yData (px + 32 * int j + 31 - int b)"
proof -
  define m where "m = px mod 32"
  define q where "q = px div 32 + int j"
  have m: "0 \<le> m" "m < 32" by (simp_all add: m_def)
  have px: "px + 32 * int j + 31 - int b = 32 * q + m + 31 - int b"
    by (simp add: m_def q_def)
  have sh: "shl32 w (js_rem px 32) = push_bit (nat m) w" for w
    by (simp add: shl32_def js_rem_mod32 m_def)
  show ?thesis
  proof (cases "m \<le> int b")
    case True
    have d: "(px + 32 * int j + 31 - int b) div 32 = q"
      and r: "(px + 32 * int j + 31 - int b) mod 32 = m + 31 - int b"
      unfolding px using cell_hi[OF m(1) True, of q] assms by simp_all
    have nb: "nat (31 - (m + 31 - int b)) = b - nat m" using True m by simp
    have nm: "nat m \<le> b" using True m by simp
    have hi: "\<not> bit (ushr32 (w AND (if js_rem px 32 \<noteq> 0 then - 1 else 0)) (32 - js_rem px 32)) b" for w :: word32
    proof (cases "m = 0")
      case True then show ?thesis by (simp add: js_rem_eq0 m_def ushr32_def)
    next
      case False
      then have "nat ((32 - js_rem px 32) mod 32) = 32 - nat m"
        using ushr_count[of px] by (simp add: m_def)
      then show ?thesis using nm m \<open>b < 32\<close>
        by (simp add: ushr32_def bit_drop_bit_eq bit_and_iff bit32_high)
    qed
    show ?thesis
      unfolding window_def cellBit_def Let_def d r nb sh bit_or_iff q_def[symmetric]
      using nm assms hi
      by (auto simp add: bit_push_bit_iff q_def add.assoc split: option.splits)
  next
    case False
    then have lt: "int b < m" by simp
    have d: "(px + 32 * int j + 31 - int b) div 32 = q + 1"
      and r: "(px + 32 * int j + 31 - int b) mod 32 = m - 1 - int b"
      unfolding px using cell_lo[OF _ lt m(2), of q] by simp_all
    have nb: "nat (31 - (m - 1 - int b)) = 32 - nat m + b" using lt m by simp
    have nm: "\<not> nat m \<le> b" using lt by simp
    have m0: "px mod 32 \<noteq> 0" using lt by (simp add: m_def)
    have cnt: "ushr32 w (32 - js_rem px 32) = drop_bit (32 - nat m) w" for w
      using ushr32_compl[OF m0] by (simp add: m_def)
    have fx: "js_rem px 32 \<noteq> 0" using m0 by (simp add: js_rem_eq0)
    show ?thesis
      unfolding window_def cellBit_def Let_def d r nb sh cnt bit_or_iff q_def[symmetric]
      using nm assms fx lt m
      by (auto simp add: bit_push_bit_iff bit_drop_bit_eq q_def add.assoc split: option.splits)
  qed
qed

text \<open>
  The second pass keeps the shape of the grid and adds to every word exactly the bits that
  the mask words contribute.
\<close>

lemma mergeWord_length [simp]: "length (mergeWord yd xx off t j) = length yd"
  by (simp add: mergeWord_def js_index_def Let_def split: option.splits)

lemma mergeWord_nth:
  assumes "k < length yd"
  shows "mergeWord yd xx off t j ! k = yd ! k OR contrib xx off t j k"
  using assms
  by (auto simp add: mergeWord_def js_index_def contrib_def Let_def nth_list_update
      split: option.splits)

lemma fold_mergeWord_length [simp]:
  "length (fold (\<lambda>j yd. mergeWord yd xx off (mrow ! j) j) js yd) = length yd"
  by (induction js arbitrary: yd) simp_all

lemma fold_mergeWord_bit:
  assumes "k < length yd"
  shows "bit (fold (\<lambda>j yd. mergeWord yd xx off (mrow ! j) j) js yd ! k) b
         \<longleftrightarrow> bit (yd ! k) b \<or> (\<exists>j\<in>set js. bit (contrib xx off (mrow ! j) j k) b)"
  using assms
proof (induction js arbitrary: yd)
  case Nil
  then show ?case by simp
next
  case (Cons j js)
  have "k < length (mergeWord yd xx off (mrow ! j) j)" using Cons.prems by simp
  from Cons.IH[OF this] show ?case
    using Cons.prems by (auto simp add: mergeWord_nth bit_or_iff)
qed

lemma mergeRow_length [simp]: "length (mergeRow yd mrow xx off) = length yd"
  by (simp add: mergeRow_def)

lemma mergeRow_bit:
  assumes "k < length yd"
  shows "bit (mergeRow yd mrow xx off ! k) b
         \<longleftrightarrow> bit (yd ! k) b \<or> (\<exists>j<length mrow. bit (contrib xx off (mrow ! j) j k) b)"
  unfolding mergeRow_def fold_mergeWord_bit[OF assms] by auto

lemma mergeRowAt_length [simp]: "length (mergeRowAt md py xx off i td) = length td"
  by (simp add: mergeRowAt_def split: option.splits)

lemma mergeRowAt_row_length [simp]:
  "R < length td \<Longrightarrow> length (mergeRowAt md py xx off i td ! R) = length (td ! R)"
  by (auto simp add: mergeRowAt_def js_index_def nth_list_update split: option.splits)

lemma mergeRowAt_bit:
  assumes "R < length td" "k < length (td ! R)"
  shows "bit (mergeRowAt md py xx off i td ! R ! k) b
         \<longleftrightarrow> bit (td ! R ! k) b \<or>
             (int R = py + int i \<and> (\<exists>j<length (md ! i). bit (contrib xx off (md ! i ! j) j k) b))"
proof (cases "int R = py + int i")
  case True
  then have "nat (py + int i) = R" by simp
  then show ?thesis
    using assms True by (simp add: mergeRowAt_def js_index_def mergeRow_bit)
next
  case False
  then have "nat (py + int i) = R \<Longrightarrow> py + int i < 0" by auto
  then show ?thesis
    using assms False by (auto simp add: mergeRowAt_def js_index_def nth_list_update)
qed

lemma fold_mergeRowAt_length [simp]:
  "length (fold (mergeRowAt md py xx off) is td) = length td"
  by (induction "is" arbitrary: td) simp_all

lemma fold_mergeRowAt_row_length [simp]:
  "R < length td \<Longrightarrow> length (fold (mergeRowAt md py xx off) is td ! R) = length (td ! R)"
  by (induction "is" arbitrary: td) simp_all

lemma fold_mergeRowAt_bit:
  assumes "R < length td" "k < length (td ! R)"
  shows "bit (fold (mergeRowAt md py xx off) is td ! R ! k) b
         \<longleftrightarrow> bit (td ! R ! k) b \<or>
             (\<exists>i\<in>set is. int R = py + int i \<and>
                (\<exists>j<length (md ! i). bit (contrib xx off (md ! i ! j) j k) b))"
  using assms
proof (induction "is" arbitrary: td)
  case Nil
  then show ?case by simp
next
  case (Cons i "is")
  have "R < length (mergeRowAt md py xx off i td)" "k < length (mergeRowAt md py xx off i td ! R)"
    using Cons.prems by simp_all
  from Cons.IH[OF this] show ?case
    using Cons.prems by (auto simp add: mergeRowAt_bit)
qed

lemma mergeRows_fold: "mergeRows td md py xx off = fold (mergeRowAt md py xx off) [0..<length md] td"
  by (rule mergeRows_def)

lemma cell_eq:
  fixes xx k j b bb m :: int
  assumes "0 \<le> b" "b < 32" "0 \<le> bb" "bb < 32" "0 \<le> m" "m < 32"
  shows "32 * xx + m + 32 * j + 31 - b = 32 * k + 31 - bb
         \<longleftrightarrow> (k = xx + j \<and> b = bb + m) \<or> (k = xx + j + 1 \<and> bb = b + 32 - m)"
proof
  assume e: "32 * xx + m + 32 * j + 31 - b = 32 * k + 31 - bb"
  define d where "d = k - (xx + j)"
  have k: "k = xx + j + d" by (simp add: d_def)
  have e': "32 * d = m + bb - b" using e unfolding k by simp
  have "0 \<le> d" "d \<le> 1" using e' assms by linarith+
  then consider "d = 0" | "d = 1" by linarith
  then show "(k = xx + j \<and> b = bb + m) \<or> (k = xx + j + 1 \<and> bb = b + 32 - m)"
    using e' k by cases simp_all
next
  assume "(k = xx + j \<and> b = bb + m) \<or> (k = xx + j + 1 \<and> bb = b + 32 - m)"
  then show "32 * xx + m + 32 * j + 31 - b = 32 * k + 31 - bb"
    by auto
qed

lemma shl32_compl:
  assumes "a mod 32 \<noteq> 0"
  shows "shl32 w (32 - js_rem a 32) = push_bit (32 - nat (a mod 32)) w"
  unfolding shl32_def ushr_count[OF assms] by (rule refl)

lemma ushr32_rem: "ushr32 w (js_rem a 32) = drop_bit (nat (a mod 32)) w"
  by (simp add: ushr32_def js_rem_mod32)

lemma contrib_bit:
  assumes "bb < 32"
  shows "bit (contrib (px div 32) (js_rem px 32) t j k) bb
         \<longleftrightarrow> (\<exists>b<32. bit t b \<and> px + 32 * int j + 31 - int b = 32 * int k + 31 - int bb)"
proof -
  define m where "m = nat (px mod 32)"
  have m: "m < 32" "int m = px mod 32" by (simp_all add: m_def nat_less_iff)
  define xx where "xx = px div 32"
  have px: "px = 32 * xx + int m" using m by (simp add: xx_def)
  have eq: "px + 32 * int j + 31 - int b = 32 * int k + 31 - int bb
            \<longleftrightarrow> (int k = xx + int j \<and> b = bb + m) \<or> (int k = xx + int j + 1 \<and> bb = b + 32 - m)"
    if "b < 32" for b
  proof -
    have "32 * xx + int m + 32 * int j + 31 - int b = 32 * int k + 31 - int bb
         \<longleftrightarrow> (int k = xx + int j \<and> int b = int bb + int m) \<or> (int k = xx + int j + 1 \<and> int bb = int b + 32 - int m)"
      by (rule cell_eq) (use that assms m(1) in simp_all)
    then show ?thesis unfolding px[symmetric] using m(1) by (simp add: of_nat_diff) linarith
  qed
  have lo: "bit (ushr32 t (js_rem px 32)) bb \<longleftrightarrow> (\<exists>b<32. bit t b \<and> b = bb + m)"
    unfolding ushr32_rem m_def[symmetric] bit_drop_bit_eq
    by (auto simp add: add.commute dest: bit_imp_le_length)
  have hi: "bit (shl32 t (32 - js_rem px 32)) bb \<longleftrightarrow> (\<exists>b<32. bit t b \<and> bb = b + 32 - m)"
    if "js_rem px 32 \<noteq> 0"
  proof -
    have "px mod 32 \<noteq> 0" using that by (simp add: js_rem_eq0)
    from shl32_compl[OF this]
    have b: "bit (shl32 t (32 - js_rem px 32)) bb \<longleftrightarrow> 32 - m \<le> bb \<and> bit t (bb - (32 - m))"
      unfolding m_def[symmetric] using assms by (simp add: bit_push_bit_iff)
    show ?thesis
    proof
      assume "bit (shl32 t (32 - js_rem px 32)) bb"
      then have "32 - m \<le> bb" "bit t (bb - (32 - m))" using b by simp_all
      moreover have "bb - (32 - m) < 32" "bb = (bb - (32 - m)) + 32 - m"
        using assms m(1) \<open>32 - m \<le> bb\<close> by simp_all
      ultimately show "\<exists>b<32. bit t b \<and> bb = b + 32 - m" by blast
    next
      assume "\<exists>b<32. bit t b \<and> bb = b + 32 - m"
      then obtain b' where "b' < 32" "bit t b'" "bb = b' + 32 - m" by blast
      then have "32 - m \<le> bb" "bb - (32 - m) = b'" using m(1) by simp_all
      then show "bit (shl32 t (32 - js_rem px 32)) bb" using b \<open>bit t b'\<close> by simp
    qed
  qed
  have m0: "js_rem px 32 = 0 \<Longrightarrow> m = 0" by (simp add: js_rem_eq0 m_def)
  have rhs: "(\<exists>b<32. bit t b \<and> px + 32 * int j + 31 - int b = 32 * int k + 31 - int bb)
      \<longleftrightarrow> (int k = xx + int j \<and> (\<exists>b<32. bit t b \<and> b = bb + m)) \<or>
          (int k = xx + int j + 1 \<and> (\<exists>b<32. bit t b \<and> bb = b + 32 - m))"
    using eq by blast
  have ifbit: "bit (if c then w else 0) n \<longleftrightarrow> c \<and> bit w n" for c n and w :: word32
    by simp
  show ?thesis
  proof (cases "js_rem px 32 = 0")
    case True
    have no: "(\<exists>b<32. bit t b \<and> bb = b + 32 - m) \<longleftrightarrow> False"
      using m0[OF True] assms by simp
    show ?thesis
      unfolding rhs contrib_def xx_def[symmetric] bit_or_iff ifbit lo no
      using True by simp
  next
    case False
    show ?thesis
      unfolding rhs contrib_def xx_def[symmetric] bit_or_iff ifbit lo hi[OF False]
      using False by simp
  qed
qed

lemma word32_neq0: "(w :: word32) \<noteq> 0 \<longleftrightarrow> (\<exists>b<32. bit w b)"
proof
  assume "w \<noteq> 0"
  then obtain b where "bit w b" by (auto simp add: bit_eq_iff)
  moreover from this have "b < 32" using bit_imp_le_length[of w b] by simp
  ultimately show "\<exists>b<32. bit w b" by blast
next
  assume "\<exists>b<32. bit w b"
  then show "w \<noteq> 0" by auto
qed

lemma cell_of_bit:
  assumes "b < 32"
  shows "(32 * j + 31 - b) div 32 = (j::nat)" "31 - (32 * j + 31 - b) mod 32 = b"
    "int (32 * j + 31 - b) = 32 * int j + 31 - int b"
proof -
  have e: "32 * j + 31 - b = (31 - b) + j * 32" using assms by simp
  have "(31 - b + j * 32) div 32 = j" "(31 - b + j * 32) mod 32 = 31 - b" by simp_all
  then show "(32 * j + 31 - b) div 32 = j" "31 - (32 * j + 31 - b) mod 32 = b"
    using assms by (simp_all only: e)
  show "int (32 * j + 31 - b) = 32 * int j + 31 - int b" using assms by simp
qed

lemma bit_of_cell:
  "31 - c mod 32 < (32::nat)" "32 * int (c div 32) + 31 - int (31 - c mod 32) = int c"
proof -
  show "31 - c mod 32 < (32::nat)" by simp
  have "c mod 32 < 32" by simp
  then have "int (31 - c mod 32) = 31 - int (c mod 32)" by simp
  moreover have "int c = 32 * int (c div 32) + int (c mod 32)"
    by (metis mult_div_mod_eq of_nat_add of_nat_mult of_nat_numeral)
  ultimately show "32 * int (c div 32) + 31 - int (31 - c mod 32) = int c" by simp
qed

lemma cellBit_rowOrEmpty:
  "cellBit opts (rowOrEmpty d R) C = (if inGrid d C R then occupied d C R else \<not> cut opts)"
proof -
  have c0: "0 \<le> C div 32 \<longleftrightarrow> 0 \<le> C" by (rule pos_imp_zdiv_nonneg_iff) simp
  show ?thesis
  proof (cases "0 \<le> R \<and> R < int (length d)")
    case True
    then show ?thesis
      by (simp add: cellBit_def rowOrEmpty_def js_index_def inGrid_def occupied_def c0)
  next
    case False
    then show ?thesis
      by (auto simp add: cellBit_def rowOrEmpty_def js_index_def inGrid_def occupied_def)
  qed
qed

text \<open>
  The first pass finds a collision exactly when some ink cell of the mask lies on a cell
  that the grid shows as occupied.
\<close>

lemma collides_iff:
  "collides opts d md xpos ypos \<longleftrightarrow>
     (\<exists>c r. inkAt md c r \<and>
        cellBit opts (rowOrEmpty d (ypos div pixelRatio opts + int r)) (xpos div pixelRatio opts + int c))"
  (is "?L \<longleftrightarrow> ?R")
proof -
  define px py where "px = xpos div pixelRatio opts" and "py = ypos div pixelRatio opts"
  have L: "?L \<longleftrightarrow> (\<exists>i<length md. \<exists>j<length (md ! i). \<exists>b<32.
              cellBit opts (rowOrEmpty d (py + int i)) (px + 32 * int j + 31 - int b) \<and> bit (md ! i ! j) b)"
    unfolding collides_def Let_def px_def[symmetric] py_def[symmetric] list_ex_iff word32_neq0 bit_and_iff
    by (simp add: window_bit Bex_def cong: conj_cong)
  show ?thesis
    unfolding L px_def[symmetric] py_def[symmetric]
  proof
    assume "\<exists>i<length md. \<exists>j<length (md ! i). \<exists>b<32.
              cellBit opts (rowOrEmpty d (py + int i)) (px + 32 * int j + 31 - int b) \<and> bit (md ! i ! j) b"
    then obtain i j b where h: "i < length md" "j < length (md ! i)" "b < 32"
      "cellBit opts (rowOrEmpty d (py + int i)) (px + 32 * int j + 31 - int b)" "bit (md ! i ! j) b"
      by blast
    have "inkAt md (32 * j + 31 - b) i"
      unfolding inkAt_def cell_of_bit[OF h(3)] using h by simp
    moreover have "cellBit opts (rowOrEmpty d (py + int i)) (px + int (32 * j + 31 - b))"
      unfolding cell_of_bit[OF h(3)] using h(4) by (simp add: algebra_simps)
    ultimately show "\<exists>c r. inkAt md c r \<and> cellBit opts (rowOrEmpty d (py + int r)) (px + int c)"
      by blast
  next
    assume "\<exists>c r. inkAt md c r \<and> cellBit opts (rowOrEmpty d (py + int r)) (px + int c)"
    then obtain c r where h: "inkAt md c r" "cellBit opts (rowOrEmpty d (py + int r)) (px + int c)"
      by blast
    have "px + 32 * int (c div 32) + 31 - int (31 - c mod 32) = px + int c"
      using bit_of_cell(2)[of c] by simp
    then have "cellBit opts (rowOrEmpty d (py + int r)) (px + 32 * int (c div 32) + 31 - int (31 - c mod 32))"
      using h(2) by simp
    then show "\<exists>i<length md. \<exists>j<length (md ! i). \<exists>b<32.
              cellBit opts (rowOrEmpty d (py + int i)) (px + 32 * int j + 31 - int b) \<and> bit (md ! i ! j) b"
      using h(1) bit_of_cell(1)[of c] unfolding inkAt_def by blast
  qed
qed

lemma mergeRows_inGrid [simp]: "inGrid (mergeRows d md py xx off) C R = inGrid d C R"
proof (cases "0 \<le> R \<and> R < int (length d)")
  case True
  then have "nat R < length d" by linarith
  then show ?thesis by (simp add: inGrid_def mergeRows_fold)
next
  case False
  then show ?thesis by (auto simp add: inGrid_def mergeRows_fold)
qed

text \<open>
  After the second pass a cell is occupied exactly when it was occupied before or is a
  stored cell under an ink cell of the mask.
\<close>

lemma mergeRows_occupied:
  "occupied (mergeRows d md py (px div 32) (js_rem px 32)) C R \<longleftrightarrow>
     occupied d C R \<or>
     (inGrid d C R \<and> (\<exists>c r. inkAt md c r \<and> C = px + int c \<and> R = py + int r))"
proof (cases "inGrid d C R")
  case False
  then show ?thesis by (simp add: occupied_def)
next
  case True
  define Rn k bb where "Rn = nat R" and "k = nat (C div 32)" and "bb = nat (31 - C mod 32)"
  have c0: "0 \<le> C div 32" using True by (simp add: inGrid_def pos_imp_zdiv_nonneg_iff)
  have Rn: "Rn < length d" "int Rn = R" using True unfolding inGrid_def Rn_def by linarith+
  have k: "k < length (d ! Rn)" "int k = C div 32"
    using True c0 unfolding inGrid_def Rn_def k_def by linarith+
  have bb: "bb < 32" "int bb = 31 - C mod 32"
    by (simp_all add: bb_def nat_less_iff)
  have C: "32 * int k + 31 - int bb = C" unfolding k bb by simp
  have step: "bit (mergeRows d md py (px div 32) (js_rem px 32) ! Rn ! k) bb \<longleftrightarrow>
      bit (d ! Rn ! k) bb \<or>
      (\<exists>i<length md. R = py + int i \<and>
         (\<exists>j<length (md ! i). \<exists>b<32. bit (md ! i ! j) b \<and> px + 32 * int j + 31 - int b = C))"
    unfolding mergeRows_fold fold_mergeRowAt_bit[OF Rn(1) k(1)] contrib_bit[OF bb(1)] C Rn(2)
    by (simp only: set_upt Bex_def atLeastLessThan_iff le0 simp_thms)
  have ex: "(\<exists>i<length md. R = py + int i \<and>
         (\<exists>j<length (md ! i). \<exists>b<32. bit (md ! i ! j) b \<and> px + 32 * int j + 31 - int b = C))
     \<longleftrightarrow> (\<exists>c r. inkAt md c r \<and> C = px + int c \<and> R = py + int r)"
  proof
    assume "\<exists>i<length md. R = py + int i \<and>
         (\<exists>j<length (md ! i). \<exists>b<32. bit (md ! i ! j) b \<and> px + 32 * int j + 31 - int b = C)"
    then obtain i j b where h: "i < length md" "R = py + int i" "j < length (md ! i)" "b < 32"
      "bit (md ! i ! j) b" "px + 32 * int j + 31 - int b = C" by blast
    have "inkAt md (32 * j + 31 - b) i"
      unfolding inkAt_def cell_of_bit[OF h(4)] using h by simp
    moreover have "C = px + int (32 * j + 31 - b)"
      unfolding cell_of_bit[OF h(4)] using h(6) by simp
    ultimately show "\<exists>c r. inkAt md c r \<and> C = px + int c \<and> R = py + int r"
      using h(2) by blast
  next
    assume "\<exists>c r. inkAt md c r \<and> C = px + int c \<and> R = py + int r"
    then obtain c r where h: "inkAt md c r" "C = px + int c" "R = py + int r" by blast
    have "px + 32 * int (c div 32) + 31 - int (31 - c mod 32) = C"
      using bit_of_cell(2)[of c] h(2) by simp
    then show "\<exists>i<length md. R = py + int i \<and>
         (\<exists>j<length (md ! i). \<exists>b<32. bit (md ! i ! j) b \<and> px + 32 * int j + 31 - int b = C)"
      using h(1,3) bit_of_cell(1)[of c] unfolding inkAt_def by blast
  qed
  show ?thesis
    unfolding occupied_def mergeRows_inGrid
    using True step ex by (simp add: Rn_def k_def bb_def)
qed

lemma tryPlaceTag_True_iff:
  "snd (tryPlaceTag opts g m xpos ypos) \<longleftrightarrow> \<not> collides opts (Pixels.data g) (Pixels.data m) xpos ypos"
  by (simp add: tryPlaceTag_def Let_def)

lemma tryPlaceTag_data:
  "\<not> collides opts (Pixels.data g) (Pixels.data m) xpos ypos \<Longrightarrow>
   Pixels.data (fst (tryPlaceTag opts g m xpos ypos)) =
     mergeRows (Pixels.data g) (Pixels.data m) (ypos div pixelRatio opts)
       ((xpos div pixelRatio opts) div 32) (js_rem (xpos div pixelRatio opts) 32)"
  by (simp add: tryPlaceTag_def Let_def)

section \<open>Claims about the collision test\<close>

text \<open>
  Claim C1. For every grid, mask and position: when \<^verbatim>\<open>tryPlaceTag\<close> returns false, the
  grid after the call equals the grid before the call.
\<close>

theorem tryPlaceTag_false_keeps_grid:
  assumes "tryPlaceTag opts thisPixels tagMask xpos ypos = (thisPixels', False)"
  shows "thisPixels' = thisPixels"
  using assms by (simp add: tryPlaceTag_def Let_def split: if_splits)

theorem tryPlaceTag_false_keeps_grid_witness:
  "fst (tryPlaceTag optsDefault (mkPixels 4 4 [[- 1]]) (mkPixels 4 4 [[0x80000000]]) 0 0)
     = mkPixels 4 4 [[- 1]]"
proof -
  have "tryPlaceTag optsDefault (mkPixels 4 4 [[- 1]]) (mkPixels 4 4 [[0x80000000]]) 0 0
     = (fst (tryPlaceTag optsDefault (mkPixels 4 4 [[- 1]]) (mkPixels 4 4 [[0x80000000]]) 0 0), False)"
    by code_simp
  from tryPlaceTag_false_keeps_grid[OF this] show ?thesis .
qed

text \<open>
  Claim C3 as stated fails for a mask without ink (a tag of blanks): on the empty grid of
  the 8\<times>8 canvas it is accepted at the start position, merges nothing, and is accepted
  again at the same position.
\<close>

theorem tryPlaceTag_blank_twice:
  "snd (tryPlaceTag exOpts8 (mkPixels 8 8 [[0x3FFFFFFF], [0x3FFFFFFF]]) (mkPixels 4 4 [[0]]) 2 2) \<and>
   snd (tryPlaceTag exOpts8
          (fst (tryPlaceTag exOpts8 (mkPixels 8 8 [[0x3FFFFFFF], [0x3FFFFFFF]])
                  (mkPixels 4 4 [[0]]) 2 2))
          (mkPixels 4 4 [[0]]) 2 2)"
  by code_simp

text \<open>
  Claim C3, amended. When \<^verbatim>\<open>tryPlaceTag\<close> accepts a mask that has an ink cell falling
  on a stored cell of the grid (with \<open>cut = False\<close> every ink cell of an accepted mask does),
  running it again with the same mask at the same position on the resulting grid returns
  false.
\<close>

theorem tryPlaceTag_again_collides:
  assumes "tryPlaceTag opts thisPixels tagMask xpos ypos = (thisPixels', True)"
    and "inkAt (Pixels.data tagMask) c r"
    and "cut opts \<longrightarrow>
           inGrid (Pixels.data thisPixels) (xpos div pixelRatio opts + int c) (ypos div pixelRatio opts + int r)"
  shows "snd (tryPlaceTag opts thisPixels' tagMask xpos ypos) = False"
proof -
  define px py where "px = xpos div pixelRatio opts" and "py = ypos div pixelRatio opts"
  have nc: "\<not> collides opts (Pixels.data thisPixels) (Pixels.data tagMask) xpos ypos"
    using assms(1) by (simp add: tryPlaceTag_def Let_def split: if_splits)
  have d': "Pixels.data thisPixels' =
      mergeRows (Pixels.data thisPixels) (Pixels.data tagMask) py (px div 32) (js_rem px 32)"
    using tryPlaceTag_data[OF nc] assms(1) by (simp add: px_def py_def)
  have "\<not> cellBit opts (rowOrEmpty (Pixels.data thisPixels) (py + int r)) (px + int c)"
    using nc assms(2) unfolding collides_iff px_def py_def by blast
  then have "\<not> cut opts \<longrightarrow> inGrid (Pixels.data thisPixels) (px + int c) (py + int r)"
    unfolding cellBit_rowOrEmpty by (simp split: if_splits)
  then have ig: "inGrid (Pixels.data thisPixels) (px + int c) (py + int r)"
    using assms(3) unfolding px_def py_def by blast
  then have "occupied (Pixels.data thisPixels') (px + int c) (py + int r)"
    unfolding d' mergeRows_occupied using assms(2) by blast
  moreover have "inGrid (Pixels.data thisPixels') (px + int c) (py + int r)"
    unfolding d' using ig by simp
  ultimately have "cellBit opts (rowOrEmpty (Pixels.data thisPixels') (py + int r)) (px + int c)"
    unfolding cellBit_rowOrEmpty by simp
  then have "collides opts (Pixels.data thisPixels') (Pixels.data tagMask) xpos ypos"
    unfolding collides_iff px_def py_def using assms(2) by blast
  then show ?thesis by (simp add: tryPlaceTag_def)
qed

theorem tryPlaceTag_again_collides_witness:
  "snd (tryPlaceTag optsDefault (mkPixels 4 4 [[0x80000000]]) (mkPixels 4 4 [[0x80000000]]) 0 0)
     = False"
proof -
  have b: "tryPlaceTag optsDefault (mkPixels 4 4 [[0]]) (mkPixels 4 4 [[0x80000000]]) 0 0
      = (mkPixels 4 4 [[0x80000000]], True)" by code_simp
  have c: "inkAt (Pixels.data (mkPixels 4 4 [[0x80000000]])) 0 0" by code_simp
  have d: "cut optsDefault \<longrightarrow>
      inGrid (Pixels.data (mkPixels 4 4 [[0]])) (0 div pixelRatio optsDefault + int 0)
        (0 div pixelRatio optsDefault + int 0)" by code_simp
  from tryPlaceTag_again_collides[OF b c d] show ?thesis .
qed

section \<open>Properties of the downsampling\<close>

lemma int_div_bounds:
  fixes a b :: int
  assumes "1 \<le> b"
  shows "(a div b) * b \<le> a" "a < (a div b) * b + b"
proof -
  have m: "0 \<le> a mod b" "a mod b < b" using assms by simp_all
  have e: "a = (a div b) * b + a mod b" by simp
  show "(a div b) * b \<le> a" using e m by linarith
  show "a < (a div b) * b + b" using e m by linarith
qed

lemma ceil_div_bounds:
  assumes "1 \<le> b"
  shows "(ceil_div a b - 1) * b < a" "a \<le> ceil_div a b * b"
proof -
  have c: "ceil_div a b * b = - (((- a) div b) * b)" by (simp add: ceil_div_def)
  show "a \<le> ceil_div a b * b" unfolding c using int_div_bounds[OF assms, of "- a"] by linarith
  have "(ceil_div a b - 1) * b = ceil_div a b * b - b" by (simp add: algebra_simps)
  then show "(ceil_div a b - 1) * b < a" unfolding c using int_div_bounds[OF assms, of "- a"] by linarith
qed

lemma mult_less_cancel_pos:
  fixes xpos ypos b :: int
  assumes "1 \<le> b" "xpos * b < ypos * b"
  shows "xpos < ypos"
  using assms by (simp add: mult_less_cancel_right)

lemma ceil_div_nonneg:
  assumes "1 \<le> b" "0 \<le> a"
  shows "0 \<le> ceil_div a b"
proof -
  have "(ceil_div a b - 1) * b < ceil_div a b * b" using assms(1) by (simp add: algebra_simps)
  have "(- 1) * b < ceil_div a b * b"
    using ceil_div_bounds(2)[OF assms(1), of a] assms by linarith
  from mult_less_cancel_pos[OF assms(1) this] show ?thesis by simp
qed

lemma div_less_ceil_div:
  assumes "1 \<le> b" "p < a"
  shows "p div b < ceil_div a b"
proof -
  have "(p div b) * b < ceil_div a b * b"
    using int_div_bounds(1)[OF assms(1), of p] assms(2) ceil_div_bounds(2)[OF assms(1), of a] by linarith
  from mult_less_cancel_pos[OF assms(1) this] show ?thesis .
qed

lemma js_rem_nonneg: "0 \<le> a \<Longrightarrow> 0 < b \<Longrightarrow> js_rem a b = a mod b"
  by (cases "a = 0") (simp_all add: js_rem_def)

lemma edgeLen_iff:
  assumes "1 \<le> pr" "0 \<le> w" "0 \<le> cx" "cx < ceil_div w pr" "0 \<le> xpos"
  shows "xpos < edgeLen w pr cx \<longleftrightarrow> xpos < pr \<and> cx * pr + xpos < w"
proof (cases "cx = ceil_div w pr - 1")
  case True
  have W: "ceil_div w pr = cx + 1" using True by simp
  have b: "cx * pr < w" "w \<le> cx * pr + pr"
    using ceil_div_bounds[OF assms(1), of w] unfolding W by (simp_all add: algebra_simps)
  have r: "js_rem w pr = w mod pr" using assms by (simp add: js_rem_nonneg)
  have el: "edgeLen w pr cx = (if w mod pr \<noteq> 0 then w mod pr else pr)"
    unfolding edgeLen_def r W by simp
  have "edgeLen w pr cx = w - cx * pr"
  proof (cases "w = cx * pr + pr")
    case True
    have "(cx * pr + pr) mod pr = 0" by simp
    then have "w mod pr = 0" unfolding True[symmetric] .
    then show ?thesis unfolding el using True by simp
  next
    case False
    then have "0 \<le> w - cx * pr" "w - cx * pr < pr" using b by linarith+
    then have "(w - cx * pr + cx * pr) mod pr = w - cx * pr" by (simp only: mod_mult_self1) simp
    then have m: "w mod pr = w - cx * pr" by simp
    show ?thesis unfolding el m using b by simp
  qed
  then show ?thesis using b by auto
next
  case False
  then have "cx + 1 \<le> ceil_div w pr - 1" using assms(4) by simp
  then have "(cx + 1) * pr \<le> (ceil_div w pr - 1) * pr" using assms(1) by (simp add: mult_right_mono)
  then have "cx * pr + pr < w" using ceil_div_bounds(1)[OF assms(1), of w] by (simp add: algebra_simps)
  then show ?thesis using False by (auto simp add: edgeLen_def)
qed

lemma cell_span:
  assumes "1 \<le> pr" "0 \<le> w" "0 \<le> cx" "cx < ceil_div w pr"
  shows "(\<exists>xpos<nat (edgeLen w pr cx). P (cx * pr + int xpos)) \<longleftrightarrow>
         (\<exists>p. 0 \<le> p \<and> p < w \<and> p div pr = cx \<and> P p)"
proof
  assume "\<exists>xpos<nat (edgeLen w pr cx). P (cx * pr + int xpos)"
  then obtain xpos where xpos: "xpos < nat (edgeLen w pr cx)" "P (cx * pr + int xpos)" by blast
  then have "int xpos < edgeLen w pr cx" by simp
  then have b: "int xpos < pr" "cx * pr + int xpos < w"
    using edgeLen_iff[OF assms, of "int xpos"] by simp_all
  have "(int xpos + cx * pr) div pr = cx" using b(1) by simp
  then have "(cx * pr + int xpos) div pr = cx" by (simp add: add.commute)
  moreover have "0 \<le> cx * pr + int xpos" using assms by simp
  ultimately show "\<exists>p. 0 \<le> p \<and> p < w \<and> p div pr = cx \<and> P p" using b xpos(2) by blast
next
  assume "\<exists>p. 0 \<le> p \<and> p < w \<and> p div pr = cx \<and> P p"
  then obtain p where p: "0 \<le> p" "p < w" "p div pr = cx" "P p" by blast
  define xpos where "xpos = p mod pr"
  have xb: "0 \<le> xpos" "xpos < pr" using assms(1) by (simp_all add: xpos_def)
  have e: "p = cx * pr + xpos" unfolding xpos_def p(3)[symmetric] by simp
  have "xpos < edgeLen w pr cx" using edgeLen_iff[OF assms xb(1)] xb(2) p(2) e by simp
  then have "nat xpos < nat (edgeLen w pr cx)" using xb by simp
  moreover have "P (cx * pr + int (nat xpos))" using p(4) e xb by simp
  ultimately show "\<exists>xpos<nat (edgeLen w pr cx). P (cx * pr + int xpos)" by blast
qed

lemma pixel_pos_bound:
  fixes w h px py :: int
  assumes "0 \<le> px" "px < w" "0 \<le> py" "py < h"
  shows "0 \<le> py * w + px" "4 * (py * w + px) + 3 < 4 * w * h"
proof -
  show "0 \<le> py * w + px" using assms by simp
  have "py + 1 \<le> h" using assms by simp
  then have "(py + 1) * w \<le> h * w" using assms by (intro mult_right_mono) simp_all
  then have "py * w + px < w * h" using assms by (simp add: algebra_simps)
  then show "4 * (py * w + px) + 3 < 4 * w * h" by simp
qed

lemma inkAtPos_iff:
  assumes "wfImage img" "0 \<le> px" "px < int (ImageData.width img)"
    "0 \<le> py" "py < int (ImageData.height img)"
  shows "inkAtPos (ImageData.data img) opTh lTh (4 * (py * int (ImageData.width img) + px))
         \<longleftrightarrow> inkPredicate img opTh lTh px py"
proof -
  define pos where "pos = 4 * (py * int (ImageData.width img) + px)"
  have len: "int (length (ImageData.data img)) = 4 * int (ImageData.width img) * int (ImageData.height img)"
    using assms(1) by (simp add: wfImage_def)
  have b: "0 \<le> pos" "pos + 3 < int (length (ImageData.data img))"
    unfolding len pos_def using pixel_pos_bound[OF assms(2-5)] by simp_all
  have n: "nat (pos + 1) = nat pos + 1" "nat (pos + 2) = nat pos + 2" "nat (pos + 3) = nat pos + 3"
    using b(1) by simp_all
  have i: "js_index (ImageData.data img) pos = Some (ImageData.data img ! nat pos)"
    "js_index (ImageData.data img) (pos + 1) = Some (ImageData.data img ! (nat pos + 1))"
    "js_index (ImageData.data img) (pos + 2) = Some (ImageData.data img ! (nat pos + 2))"
    "js_index (ImageData.data img) (pos + 3) = Some (ImageData.data img ! (nat pos + 3))"
    using b n by (simp_all add: js_index_def)
  show ?thesis
    unfolding pos_def[symmetric] inkAtPos_def inkPredicate_def Let_def i undefLess_def undefGreater_def undefAdd_def
    by (simp add: not_less add.assoc)
qed

text \<open>
  The scan of a cell finds ink exactly when one of the pixels of the image that the cell
  covers satisfies the ink predicate.
\<close>

lemma cellInk_iff:
  assumes "1 \<le> pixelRatio opts" "wfImage img"
    "0 \<le> cx" "cx < ceil_div (int (ImageData.width img)) (pixelRatio opts)"
    "0 \<le> cy" "cy < ceil_div (int (ImageData.height img)) (pixelRatio opts)"
  shows "cellInk opts img opTh lTh cx cy \<longleftrightarrow>
     (\<exists>px py. 0 \<le> px \<and> px < int (ImageData.width img) \<and> px div pixelRatio opts = cx \<and>
              0 \<le> py \<and> py < int (ImageData.height img) \<and> py div pixelRatio opts = cy \<and>
              inkPredicate img opTh lTh px py)"
proof -
  define pr w h where "pr = pixelRatio opts" and "w = int (ImageData.width img)"
    and "h = int (ImageData.height img)"
  have w0: "0 \<le> w" "0 \<le> h" by (simp_all add: w_def h_def)
  have pos: "cy * pr * (4 * w) + 4 * (cx * pr) + int ypos * (4 * w) + 4 * int xpos
        = 4 * ((cy * pr + int ypos) * w + (cx * pr + int xpos))" for xpos ypos
    by (simp add: algebra_simps)
  have L: "cellInk opts img opTh lTh cx cy \<longleftrightarrow>
      (\<exists>ypos<nat (edgeLen h pr cy). \<exists>xpos<nat (edgeLen w pr cx).
          inkAtPos (ImageData.data img) opTh lTh (4 * ((cy * pr + int ypos) * w + (cx * pr + int xpos))))"
    unfolding cellInk_def Let_def pr_def[symmetric] w_def[symmetric] h_def[symmetric] list_ex_iff pos
      edgeLen_def
    by (simp only: set_upt Bex_def atLeastLessThan_iff le0 simp_thms)
  have X: "(\<exists>xpos<nat (edgeLen w pr cx). inkAtPos (ImageData.data img) opTh lTh (4 * (q * w + (cx * pr + int xpos))))
      \<longleftrightarrow> (\<exists>px. 0 \<le> px \<and> px < w \<and> px div pr = cx \<and> inkAtPos (ImageData.data img) opTh lTh (4 * (q * w + px)))" for q
    using cell_span[where P="\<lambda>p. inkAtPos (ImageData.data img) opTh lTh (4 * (q * w + p))", OF _ w0(1) assms(3)]
      assms(1,4) unfolding pr_def w_def by blast
  have Y: "(\<exists>ypos<nat (edgeLen h pr cy). Q (cy * pr + int ypos))
      \<longleftrightarrow> (\<exists>py. 0 \<le> py \<and> py < h \<and> py div pr = cy \<and> Q py)" for Q
    using cell_span[where P=Q, OF _ w0(2) assms(5)] assms(1,6) unfolding pr_def h_def by blast
  have "cellInk opts img opTh lTh cx cy \<longleftrightarrow>
      (\<exists>ypos<nat (edgeLen h pr cy). \<exists>px. 0 \<le> px \<and> px < w \<and> px div pr = cx \<and>
          inkAtPos (ImageData.data img) opTh lTh (4 * ((cy * pr + int ypos) * w + px)))"
    unfolding L X ..
  also have "\<dots> \<longleftrightarrow> (\<exists>py. 0 \<le> py \<and> py < h \<and> py div pr = cy \<and>
      (\<exists>px. 0 \<le> px \<and> px < w \<and> px div pr = cx \<and>
          inkAtPos (ImageData.data img) opTh lTh (4 * (py * w + px))))"
    by (rule Y[where Q="\<lambda>q. \<exists>px. 0 \<le> px \<and> px < w \<and> px div pr = cx \<and>
          inkAtPos (ImageData.data img) opTh lTh (4 * (q * w + px))"])
  also have "\<dots> \<longleftrightarrow> (\<exists>px py. 0 \<le> px \<and> px < w \<and> px div pr = cx \<and>
              0 \<le> py \<and> py < h \<and> py div pr = cy \<and> inkPredicate img opTh lTh px py)"
    using inkAtPos_iff[OF assms(2), of _ _ opTh lTh] unfolding w_def[symmetric] h_def[symmetric]
    by blast
  finally show ?thesis unfolding pr_def w_def h_def .
qed

lemma tdiv_nonneg: "0 \<le> a \<Longrightarrow> 0 < b \<Longrightarrow> tdiv a b = a div b"
  by (cases "a = 0") (simp_all add: tdiv_def)

lemma neg_succ_mod32: "(- (X + 1)) mod 32 = 31 - X mod (32::int)"
proof -
  have "0 \<le> 31 - X mod 32" "31 - X mod 32 < 32" by simp_all
  moreover have "- (X + 1) = (31 - X mod 32) + (- (X div 32) - 1) * 32"
    by (simp add: algebra_simps)
  ultimately show ?thesis using divmod32_unique(2) by blast
qed

lemma cellMask_bit:
  assumes "b < 32"
  shows "bit (shl32 1 (- (X + 1))) b \<longleftrightarrow> b = nat (31 - X mod 32)"
proof -
  have "nat (31 - X mod 32) < 32" by (simp add: nat_less_iff)
  then show ?thesis
    unfolding shl32_def neg_succ_mod32 using assms
    by (auto simp add: bit_push_bit_iff bit_1_iff bit_exp_iff)
qed

lemma cellMask_bit': "b < 32 \<Longrightarrow> bit (shl32 1 (- X - 1)) b \<longleftrightarrow> b = nat (31 - X mod 32)"
  using cellMask_bit[of b X] by simp

lemma same_cell:
  assumes "0 \<le> c" "0 \<le> X"
  shows "nat (c div 32) = nat (X div 32) \<and> nat (31 - c mod 32) = nat (31 - X mod 32) \<longleftrightarrow> c = X"
proof
  assume a: "nat (c div 32) = nat (X div 32) \<and> nat (31 - c mod 32) = nat (31 - X mod 32)"
  have "0 \<le> c div 32" "0 \<le> X div 32" using assms by (simp_all add: pos_imp_zdiv_nonneg_iff)
  then have d: "c div 32 = X div 32" using a by (simp add: eq_nat_nat_iff)
  have "0 \<le> 31 - c mod 32" "0 \<le> 31 - X mod 32" by simp_all
  then have "31 - c mod 32 = 31 - X mod 32" using a by (simp only: eq_nat_nat_iff)
  then have m: "c mod 32 = X mod 32" by simp
  show "c = X" using d m by (metis mult_div_mod_eq)
next
  assume "c = X" then show "nat (c div 32) = nat (X div 32) \<and> nat (31 - c mod 32) = nat (31 - X mod 32)"
    by simp
qed

lemma markCell_inGrid [simp]:
  "inGrid (markCell fill d X Y) c r = inGrid d c r"
proof (cases "0 \<le> r \<and> r < int (length d)")
  case True
  then have "nat r < length d" by linarith
  then show ?thesis
    by (cases "nat Y = nat r") (simp_all add: inGrid_def markCell_def Let_def)
next
  case False
  then show ?thesis by (auto simp add: inGrid_def markCell_def Let_def)
qed

lemma markCell_occupied:
  assumes "inGrid d X Y" "inGrid d c r"
  shows "occupied (markCell fill d X Y) c r \<longleftrightarrow> (if c = X \<and> r = Y then fill = 0 else occupied d c r)"
proof -
  define k b where "k = nat (c div 32)" and "b = nat (31 - c mod 32)"
  define K where "K = nat (X div 32)"
  have X: "0 \<le> X" "0 \<le> Y" "nat Y < length d" "K < length (d ! nat Y)"
    using assms(1) unfolding inGrid_def K_def by (simp_all add: pos_imp_zdiv_nonneg_iff nat_less_iff)
  have c: "0 \<le> c" "0 \<le> r" "nat r < length d" "k < length (d ! nat r)"
    using assms(2) unfolding inGrid_def k_def by (simp_all add: pos_imp_zdiv_nonneg_iff nat_less_iff)
  have b: "b < 32" by (simp add: b_def nat_less_iff)
  have xi: "nat (tdiv X 32) = K" using X(1) by (simp add: tdiv_nonneg K_def)
  have rr: "nat Y = nat r \<longleftrightarrow> r = Y" using X(2) c(2) by auto
  have sc: "k = K \<and> b = nat (31 - X mod 32) \<longleftrightarrow> c = X"
    unfolding k_def K_def b_def by (rule same_cell[OF c(1) X(1)])
  have "bit (markCell fill d X Y ! nat r ! k) b \<longleftrightarrow>
        (if r = Y \<and> k = K \<and> b = nat (31 - X mod 32) then fill = 0 else bit (d ! nat r ! k) b)"
    unfolding markCell_def Let_def xi
    using X c b rr
    by (auto simp add: nth_list_update bit_and_iff bit_or_iff bit_not_iff cellMask_bit')
  then show ?thesis
    unfolding occupied_def markCell_inGrid k_def[symmetric] b_def[symmetric]
    using assms(2) sc by auto
qed

lemma lin_inj:
  assumes "0 \<le> c" "c < W" "0 \<le> X" "X < W" "lin W c r = lin W X Y"
  shows "c = X \<and> r = Y"
proof -
  have "(c + r * W) div W = r" "(X + Y * W) div W = Y" using assms by simp_all
  then have "r = Y" using assms(5) unfolding lin_def by (simp add: add.commute)
  then show ?thesis using assms(5) unfolding lin_def by simp
qed

lemma lin_next: "lin W (X + 1) Y = lin W X Y + 1"
  by (simp add: lin_def)

lemma lin_wrap: "X + 1 = W \<Longrightarrow> lin W 0 (Y + 1) = lin W X Y + 1"
  by (simp add: lin_def algebra_simps)

lemma lin_bound:
  assumes "0 \<le> c" "c < W" "0 \<le> r" "r < H"
  shows "0 \<le> lin W c r" "lin W c r < W * H"
proof -
  show "0 \<le> lin W c r" using assms unfolding lin_def by simp
  have "r + 1 \<le> H" using assms by simp
  then have "(r + 1) * W \<le> H * W" using assms by (intro mult_right_mono) simp_all
  then show "lin W c r < W * H" using assms unfolding lin_def by (simp add: algebra_simps)
qed

lemma lin_row:
  assumes "0 \<le> X" "0 < W" "0 \<le> Y" "lin W X Y < W * H"
  shows "Y < H"
proof (rule ccontr)
  assume "\<not> Y < H"
  then have "H \<le> Y" by simp
  then have "H * W \<le> Y * W" using assms(2) by (intro mult_right_mono) simp_all
  moreover have "Y * W + X < H * W" using assms(4) unfolding lin_def by (simp add: mult.commute)
  ultimately show False using assms(1) by linarith
qed

lemma gridShape_inGrid:
  assumes "gridShape d W H" "0 \<le> c" "c < W" "0 \<le> r" "r < H"
  shows "inGrid d c r"
proof -
  have r: "nat r < length d" using assms(1,4,5) unfolding gridShape_def by linarith
  then have "int (length (d ! nat r)) = ceil_div W 32"
    using assms(1) unfolding gridShape_def by blast
  moreover have "c div 32 < ceil_div W 32" using assms(3) by (intro div_less_ceil_div) simp_all
  ultimately show ?thesis using assms(1,2,4,5) unfolding inGrid_def gridShape_def by simp
qed

lemma markCell_shape [simp]: "gridShape (markCell fill d X Y) W H = gridShape d W H"
proof -
  have l: "length (markCell fill d X Y) = length d" by (simp add: markCell_def Let_def)
  have "length (markCell fill d X Y ! i) = length (d ! i)" if "i < length d" for i
    using that by (cases "i = nat Y") (simp_all add: markCell_def Let_def)
  then show ?thesis unfolding gridShape_def l by auto
qed

text \<open>
  The cell loop from cell \<open>(X, Y)\<close> on: a cell among the next \<open>n\<close> cells is marked
  when its scan finds ink, every other cell keeps its bit.
\<close>

lemma cellLoop_cells:
  assumes "gridShape d W H"
    and "W = ceil_div (int (ImageData.width img)) (pixelRatio opts)"
    and "0 \<le> X" "X < W" "0 \<le> Y" "lin W X Y + int n \<le> W * H"
    and "0 \<le> c" "c < W" "0 \<le> r" "r < H"
  shows "gridShape (cellLoop opts img oT lT fill n X Y d) W H \<and>
    (occupied (cellLoop opts img oT lT fill n X Y d) c r \<longleftrightarrow>
      (if lin W X Y \<le> lin W c r \<and> lin W c r < lin W X Y + int n \<and> cellInk opts img oT lT c r
       then fill = 0 else occupied d c r))"
  using assms(1,3-6)
proof (induction n arbitrary: X Y d)
  case 0
  then show ?case by auto
next
  case (Suc n)
  define d' where "d' = (if cellInk opts img oT lT X Y then markCell fill d X Y else d)"
  have Y: "Y < H"
    using lin_row[of X W Y H] Suc.prems by simp
  have XY: "inGrid d X Y" using gridShape_inGrid[OF Suc.prems(1,2,3,4) Y] .
  have cr: "inGrid d c r" using gridShape_inGrid[OF Suc.prems(1) assms(7-10)] .
  have sh: "gridShape d' W H" using Suc.prems(1) by (simp add: d'_def)
  have same: "lin W c r = lin W X Y \<longleftrightarrow> c = X \<and> r = Y"
    using lin_inj[OF assms(7,8) Suc.prems(2,3)] by auto
  have occ': "occupied d' c r \<longleftrightarrow>
      (if lin W c r = lin W X Y \<and> cellInk opts img oT lT c r then fill = 0 else occupied d c r)"
    unfolding d'_def same using markCell_occupied[OF XY cr, of fill] by auto
  show ?case
  proof (cases "X + 1 = W")
    case True
    have step: "cellLoop opts img oT lT fill (Suc n) X Y d = cellLoop opts img oT lT fill n 0 (Y + 1) d'"
      using True by (simp add: Let_def d'_def assms(2)[symmetric])
    have l: "lin W 0 (Y + 1) = lin W X Y + 1" using lin_wrap[OF True] .
    have pre: "(0::int) \<le> 0" "0 < W" "0 \<le> Y + 1" "lin W 0 (Y + 1) + int n \<le> W * H"
      using Suc.prems l by simp_all
    from Suc.IH[OF sh pre] show ?thesis
      unfolding step l occ' by auto
  next
    case False
    have step: "cellLoop opts img oT lT fill (Suc n) X Y d = cellLoop opts img oT lT fill n (X + 1) Y d'"
      using False by (simp add: Let_def d'_def assms(2)[symmetric])
    have l: "lin W (X + 1) Y = lin W X Y + 1" by (rule lin_next)
    have pre: "0 \<le> X + 1" "X + 1 < W" "0 \<le> Y" "lin W (X + 1) Y + int n \<le> W * H"
      using Suc.prems l False by simp_all
    from Suc.IH[OF sh pre] show ?thesis
      unfolding step l occ' by auto
  qed
qed

lemma ceil_div_32_bounds:
  assumes "0 \<le> c" "c < W"
  shows "0 < ceil_div W 32" "c div 32 < ceil_div W 32"
proof -
  show c: "c div 32 < ceil_div W 32" using assms(2) by (intro div_less_ceil_div) simp_all
  have "0 \<le> c div 32" using assms(1) by (simp add: pos_imp_zdiv_nonneg_iff)
  then show "0 < ceil_div W 32" using c by linarith
qed

lemma generatePixels_shape:
  assumes "1 \<le> pixelRatio opts" "0 \<le> w" "0 \<le> h"
  shows "gridShape (Pixels.data (generatePixels opts w h fill forTag))
           (ceil_div w (pixelRatio opts)) (ceil_div h (pixelRatio opts))"
proof -
  have "0 \<le> ceil_div w (pixelRatio opts)" "0 \<le> ceil_div h (pixelRatio opts)"
    using assms by (simp_all add: ceil_div_nonneg)
  moreover from this have "0 \<le> ceil_div (ceil_div w (pixelRatio opts)) 32"
    by (simp add: ceil_div_nonneg)
  ultimately show ?thesis
    by (simp add: gridShape_def generatePixels_def Let_def)
qed

lemma tail_bit:
  assumes "0 \<le> c" "c < W" "c div 32 = ceil_div W 32 - 1" "js_rem W 32 \<noteq> 0"
  shows "bit (shl32 (- 1 :: word32) (32 - js_rem W 32)) (nat (31 - c mod 32))"
proof -
  have W0: "0 \<le> W" using assms by simp
  have m0: "W mod 32 \<noteq> 0" using assms(4) by (simp add: js_rem_eq0)
  have sh: "shl32 (- 1) (32 - js_rem W 32) = push_bit (32 - nat (W mod 32)) (- 1 :: word32)"
    by (rule shl32_compl[OF m0])
  have b: "(ceil_div W 32 - 1) * 32 < W" "W \<le> ceil_div W 32 * 32"
    using ceil_div_bounds[of 32 W] by simp_all
  have wd: "W div 32 = ceil_div W 32 - 1"
  proof -
    have "W \<noteq> ceil_div W 32 * 32" using m0 by (metis mod_mult_self2_is_0)
    then have "W < ceil_div W 32 * 32" using b(2) by (simp add: less_le)
    then have "0 \<le> W - (ceil_div W 32 - 1) * 32" "W - (ceil_div W 32 - 1) * 32 < 32"
      using b(1) by (simp_all add: algebra_simps)
    then show ?thesis
      using divmod32_unique(1)[of "W - (ceil_div W 32 - 1) * 32" W "ceil_div W 32 - 1"] by simp
  qed
  have c: "c = 32 * (W div 32) + c mod 32" unfolding wd[unfolded assms(3)[symmetric]] by simp
  have W: "W = 32 * (W div 32) + W mod 32" by simp
  have "c mod 32 < W mod 32" using assms(2) c W by linarith
  moreover have "0 \<le> c mod 32" "W mod 32 < 32" by simp_all
  ultimately have "32 - nat (W mod 32) \<le> nat (31 - c mod 32)" "nat (31 - c mod 32) < 32"
    by (simp_all add: nat_le_iff nat_less_iff)
  then show ?thesis unfolding sh by (simp add: bit_push_bit_iff bit_not_iff bit_mask_iff)
qed

lemma generatePixels_full:
  assumes "1 \<le> pixelRatio opts" "0 \<le> w" "0 \<le> h"
    "0 \<le> c" "c < ceil_div w (pixelRatio opts)" "0 \<le> r" "r < ceil_div h (pixelRatio opts)"
  shows "occupied (Pixels.data (generatePixels opts w h (- 1) False)) c r"
proof -
  define W H where "W = ceil_div w (pixelRatio opts)" and "H = ceil_div h (pixelRatio opts)"
  define len where "len = ceil_div W 32"
  have ig: "inGrid (Pixels.data (generatePixels opts w h (- 1) False)) c r"
    using gridShape_inGrid[OF generatePixels_shape[OF assms(1-3)] assms(4-7)] .
  have len: "0 < len" "c div 32 < len" using ceil_div_32_bounds[OF assms(4)] assms(5)
    unfolding len_def W_def by simp_all
  have k: "0 \<le> c div 32" using assms(4) by (simp add: pos_imp_zdiv_nonneg_iff)
  have r: "nat r < nat H" using assms(6,7) unfolding H_def by simp
  have kk: "nat (c div 32) < nat len" using len k by simp
  define tailFill :: word32 where "tailFill = (if js_rem W 32 = 0 then - 1
      else if cut opts then - 1 AND shl32 (- 1) (32 - js_rem W 32)
      else - 1 OR ushr32 (- 1) (js_rem W 32))"
  have row: "Pixels.data (generatePixels opts w h (- 1) False) ! nat r
      = (replicate (nat len) (- 1))[nat (len - 1) := tailFill]"
    using r len(1)
    by (simp add: generatePixels_def Let_def W_def[symmetric] H_def[symmetric] len_def[symmetric] tailFill_def)
  have b: "bit ((replicate (nat len) (- 1 :: word32))[nat (len - 1) := tailFill] ! nat (c div 32))
            (nat (31 - c mod 32))"
  proof (cases "nat (c div 32) = nat (len - 1)")
    case False
    have "nat (31 - c mod 32) < 32" by (simp add: nat_less_iff)
    then show ?thesis using False kk by (simp add: nth_list_update)
  next
    case True
    then have cd: "c div 32 = ceil_div W 32 - 1" using k len(1) unfolding len_def by linarith
    have n: "nat (31 - c mod 32) < 32" by (simp add: nat_less_iff)
    have "bit tailFill (nat (31 - c mod 32))"
    proof (cases "js_rem W 32 = 0")
      case True then show ?thesis using n by (simp add: tailFill_def)
    next
      case False
      then show ?thesis
        using tail_bit[OF assms(4) _ cd False] assms(5) n
        by (simp add: tailFill_def W_def bit_and_iff bit_or_iff)
    qed
    then show ?thesis using True kk by simp
  qed
  show ?thesis unfolding occupied_def row using ig b by simp
qed

lemma getPixelsFromImgData_cells:
  assumes "1 \<le> pixelRatio opts"
    and "0 \<le> c" "c < ceil_div (int (ImageData.width img)) (pixelRatio opts)"
    and "0 \<le> r" "r < ceil_div (int (ImageData.height img)) (pixelRatio opts)"
  shows "inGrid (Pixels.data (getPixelsFromImgData opts img oT lT fill forTag)) c r \<and>
    (occupied (Pixels.data (getPixelsFromImgData opts img oT lT fill forTag)) c r \<longleftrightarrow>
      (if cellInk opts img oT lT c r then fill = 0
       else occupied (Pixels.data (generatePixels opts (int (ImageData.width img))
                        (int (ImageData.height img)) fill forTag)) c r))"
proof -
  define W H where "W = ceil_div (int (ImageData.width img)) (pixelRatio opts)"
    and "H = ceil_div (int (ImageData.height img)) (pixelRatio opts)"
  define d where "d = Pixels.data (generatePixels opts (int (ImageData.width img))
                        (int (ImageData.height img)) fill forTag)"
  have sh: "gridShape d W H"
    unfolding d_def W_def H_def by (rule generatePixels_shape[OF assms(1)]) simp_all
  have WH: "0 \<le> W * H" using assms(2-5) unfolding W_def H_def by simp
  have pre: "(0::int) \<le> 0" "0 < W" "lin W 0 0 + int (nat (W * H)) \<le> W * H"
    using assms(2,3) WH unfolding W_def by (simp_all add: lin_def)
  have cr: "c < W" "r < H" using assms unfolding W_def H_def by simp_all
  have b: "lin W 0 0 \<le> lin W c r" "lin W c r < lin W 0 0 + int (nat (W * H))"
    using lin_bound[OF assms(2) cr(1) assms(4) cr(2)] WH by (simp_all add: lin_def)
  have res: "Pixels.data (getPixelsFromImgData opts img oT lT fill forTag)
      = cellLoop opts img oT lT fill (nat (W * H)) 0 0 d"
    by (simp add: getPixelsFromImgData_def Let_def W_def H_def d_def)
  from cellLoop_cells[OF sh W_def pre(1,2,1,3) assms(2) cr(1) assms(4) cr(2), of oT lT fill]
  show ?thesis
    unfolding res d_def[symmetric] using b gridShape_inGrid[OF _ assms(2) cr(1) assms(4) cr(2)]
    by auto
qed

section \<open>Claims about the initial grid of a mask image\<close>

text \<open>
  Claim C4 as stated fails: the initial grid of a mask image starts all-occupied
  (\<open>fill = -1\<close>) and the downsampling clears the bit of every cell that holds an ink pixel.
  For the 1\<times>1 image with one opaque black pixel the cell (0, 0) holds an ink pixel and is
  not occupied.
\<close>

theorem loadMaskImage_ink_not_occupied:
  "inkPredicate blackDot (opacityThreshold opts1) (lightThreshold opts1) 0 0 \<and>
   \<not> occupied (Pixels.data (loadMaskImage opts1 blackDot)) 0 0"
  by code_simp

text \<open>
  Claim C4, amended. In the initial grid built from a mask image, every cell of the
  downsampled image is stored, and it is occupied exactly when it holds no pixel that
  satisfies the ink predicate: the cells with an ink pixel end up free (bit 0), the other
  cells stay occupied (bit 1).
\<close>

theorem loadMaskImage_ink_cells_free:
  assumes "1 \<le> pixelRatio opts" and "wfImage img"
    and "0 \<le> c" "c < ceil_div (int (ImageData.width img)) (pixelRatio opts)"
    and "0 \<le> r" "r < ceil_div (int (ImageData.height img)) (pixelRatio opts)"
  shows "inGrid (Pixels.data (loadMaskImage opts img)) c r \<and>
    (occupied (Pixels.data (loadMaskImage opts img)) c r \<longleftrightarrow>
      \<not> (\<exists>px py. 0 \<le> px \<and> px < int (ImageData.width img) \<and> px div pixelRatio opts = c \<and>
                 0 \<le> py \<and> py < int (ImageData.height img) \<and> py div pixelRatio opts = r \<and>
                 inkPredicate img (opacityThreshold opts) (lightThreshold opts) px py))"
proof -
  have full: "occupied (Pixels.data (generatePixels opts (int (ImageData.width img))
                        (int (ImageData.height img)) (- 1) False)) c r"
    by (rule generatePixels_full[OF assms(1) _ _ assms(3-6)]) simp_all
  have "inGrid (Pixels.data (loadMaskImage opts img)) c r \<and>
    (occupied (Pixels.data (loadMaskImage opts img)) c r \<longleftrightarrow>
       \<not> cellInk opts img (opacityThreshold opts) (lightThreshold opts) c r)"
    unfolding loadMaskImage_def
    using getPixelsFromImgData_cells[OF assms(1,3-6), of "opacityThreshold opts" "lightThreshold opts" "- 1" False]
      full
    by simp
  then show ?thesis
    unfolding cellInk_iff[OF assms, of "opacityThreshold opts" "lightThreshold opts"] .
qed

theorem loadMaskImage_ink_cells_free_witness:
  "\<not> occupied (Pixels.data (loadMaskImage opts1 blackDot)) 0 0"
proof -
  have a: "1 \<le> pixelRatio opts1" by code_simp
  have b: "wfImage blackDot" by code_simp
  have c: "(0::int) \<le> 0" by simp
  have d: "0 < ceil_div (int (ImageData.width blackDot)) (pixelRatio opts1)" by code_simp
  have e: "0 < ceil_div (int (ImageData.height blackDot)) (pixelRatio opts1)" by code_simp
  have f: "inkPredicate blackDot (opacityThreshold opts1) (lightThreshold opts1) 0 0" by code_simp
  have g: "(0::int) < int (ImageData.width blackDot)" "(0::int) < int (ImageData.height blackDot)"
    "(0::int) div pixelRatio opts1 = 0" by code_simp+
  from loadMaskImage_ink_cells_free[OF a b c d c e] f g c show ?thesis by blast
qed

section \<open>Grids of the canvas\<close>

lemma canvasGrid_iff:
  "canvasGrid opts d \<longleftrightarrow>
     gridShape d (ceil_div (Options.width opts) (pixelRatio opts))
                 (ceil_div (Options.height opts) (pixelRatio opts)) \<and>
     (\<forall>r c. 0 \<le> r \<and> r < ceil_div (Options.height opts) (pixelRatio opts) \<and>
            ceil_div (Options.width opts) (pixelRatio opts) \<le> c \<and>
            c < 32 * ceil_div (ceil_div (Options.width opts) (pixelRatio opts)) 32
            \<longrightarrow> occupied d c r)"
  unfolding canvasGrid_def Let_def list_all_iff by auto

lemma mergeRows_gridShape [simp]: "gridShape (mergeRows d md py xx off) W H = gridShape d W H"
  by (simp add: gridShape_def mergeRows_fold)


lemma tail_bit_uncut:
  assumes "W \<le> c" "c div 32 = ceil_div W 32 - 1" "js_rem W 32 \<noteq> 0" "0 \<le> W"
  shows "bit (ushr32 (- 1 :: word32) (js_rem W 32)) (nat (31 - c mod 32))"
proof -
  have m0: "W mod 32 \<noteq> 0" using assms(3) by (simp add: js_rem_eq0)
  have b: "(ceil_div W 32 - 1) * 32 < W" "W \<le> ceil_div W 32 * 32"
    using ceil_div_bounds[of 32 W] by simp_all
  have wd: "W div 32 = ceil_div W 32 - 1"
  proof -
    have "W \<noteq> ceil_div W 32 * 32" using m0 by (metis mod_mult_self2_is_0)
    then have "W < ceil_div W 32 * 32" using b(2) by (simp add: less_le)
    then have "0 \<le> W - (ceil_div W 32 - 1) * 32" "W - (ceil_div W 32 - 1) * 32 < 32"
      using b(1) by (simp_all add: algebra_simps)
    then show ?thesis
      using divmod32_unique(1)[of "W - (ceil_div W 32 - 1) * 32" W "ceil_div W 32 - 1"] by simp
  qed
  have c: "c = 32 * (W div 32) + c mod 32" unfolding wd[unfolded assms(2)[symmetric]] by simp
  have W: "W = 32 * (W div 32) + W mod 32" by simp
  define cm Wm q where "cm = c mod 32" and "Wm = W mod 32" and "q = W div 32"
  have "c = 32 * q + cm" "W = 32 * q + Wm" using c W unfolding cm_def Wm_def q_def by simp_all
  then have "Wm \<le> cm" using assms(1) by simp
  moreover have "cm < 32" "0 \<le> Wm" unfolding cm_def Wm_def by simp_all
  ultimately have "nat Wm + nat (31 - cm) < 32" by simp
  then have "nat (W mod 32) + nat (31 - c mod 32) < 32" unfolding cm_def Wm_def .
  then show ?thesis
    unfolding ushr32_rem by (simp add: bit_drop_bit_eq bit_mask_iff)
qed

text \<open>
  The grid that \<^verbatim>\<open>initPixels\<close> creates without a mask image is a grid of the canvas.
\<close>

lemma canvasGrid_generatePixels:
  assumes "\<not> cut opts" "1 \<le> pixelRatio opts" "0 \<le> Options.width opts" "0 \<le> Options.height opts"
  shows "canvasGrid opts
           (Pixels.data (generatePixels opts (Options.width opts) (Options.height opts) 0 False))"
proof -
  define W H where "W = ceil_div (Options.width opts) (pixelRatio opts)"
    and "H = ceil_div (Options.height opts) (pixelRatio opts)"
  define len where "len = ceil_div W 32"
  define d where "d = Pixels.data (generatePixels opts (Options.width opts) (Options.height opts) 0 False)"
  have sh: "gridShape d W H"
    unfolding d_def W_def H_def by (rule generatePixels_shape[OF assms(2-4)])
  have W0: "0 \<le> W" unfolding W_def using assms by (simp add: ceil_div_nonneg)
  have occ: "occupied d c r" if h: "0 \<le> r" "r < H" "W \<le> c" "c < 32 * len" for r c
  proof -
    define k where "k = c div 32"
    have c0: "0 \<le> c" using W0 h(3) by simp
    have kb: "k * 32 \<le> c" "c < k * 32 + 32"
      unfolding k_def using int_div_bounds[of 32 c] by simp_all
    have "k * 32 < len * 32" using kb(1) h(4) by simp
    then have cd: "k < len" by (rule mult_less_cancel_pos[rotated]) simp
    have k0: "0 \<le> k" unfolding k_def using c0 by (simp add: pos_imp_zdiv_nonneg_iff)
    have len0: "0 < len" using cd k0 by simp
    have rl: "nat r < length d" using sh h(1,2) unfolding gridShape_def by linarith
    then have ll: "int (length (d ! nat r)) = len" using sh unfolding gridShape_def len_def by blast
    have ig: "inGrid d c r"
      unfolding inGrid_def k_def[symmetric] using h(1,2) rl c0 cd ll sh unfolding gridShape_def by simp
    have lb: "(len - 1) * 32 < W" "W \<le> len * 32"
      using ceil_div_bounds[of 32 W] unfolding len_def by simp_all
    have mid: "k = len - 1"
    proof -
      have "(len - 1) * 32 < (k + 1) * 32" using lb(1) h(3) kb(2) by (simp add: algebra_simps)
      then have "len - 1 < k + 1" by (rule mult_less_cancel_pos[rotated]) simp
      then show ?thesis using cd by simp
    qed
    have t0: "js_rem W 32 \<noteq> 0"
    proof
      assume "js_rem W 32 = 0"
      then have "W mod 32 = 0" by (simp add: js_rem_eq0)
      moreover define q where "q = W div 32"
      ultimately have e: "W = q * 32" using mult_div_mod_eq[of 32 W] by simp
      have "(len - 1) * 32 < q * 32" using lb(1) unfolding e .
      then have "len - 1 < q" by (rule mult_less_cancel_pos[rotated]) simp
      moreover have "q \<le> len"
      proof (rule ccontr)
        assume "\<not> q \<le> len"
        then have "len + 1 \<le> q" by simp
        then have "(len + 1) * 32 \<le> q * 32" by (intro mult_right_mono) simp_all
        then show False using lb(2) unfolding e by (simp add: algebra_simps)
      qed
      ultimately have "q = len" by simp
      then have "W = 32 * len" unfolding e by simp
      then show False using h(3,4) by simp
    qed
    have row: "d ! nat r = (replicate (nat len) 0)[nat (len - 1) := 0 OR ushr32 (- 1) (js_rem W 32)]"
      using rl len0 t0 assms(1) h(1,2) sh
      unfolding d_def gridShape_def
      by (simp add: generatePixels_def Let_def W_def[symmetric] H_def[symmetric] len_def[symmetric])
    have "bit (d ! nat r ! nat k) (nat (31 - c mod 32))"
      unfolding row mid using len0 tail_bit_uncut[OF h(3) mid[unfolded len_def k_def] t0 W0]
      by simp
    then show ?thesis unfolding occupied_def k_def using ig by simp
  qed
  show ?thesis
    unfolding canvasGrid_iff W_def[symmetric] H_def[symmetric] len_def[symmetric]
    using sh occ unfolding d_def by blast
qed

lemma cellLoop_tail:
  assumes "gridShape d W H"
    and "W = ceil_div (int (ImageData.width img)) (pixelRatio opts)"
    and "0 \<le> X" "X < W" "0 \<le> Y" "lin W X Y + int n \<le> W * H"
    and "inGrid d c r" "W \<le> c"
  shows "occupied (cellLoop opts img oT lT fill n X Y d) c r \<longleftrightarrow> occupied d c r"
  using assms(1,3-7)
proof (induction n arbitrary: X Y d)
  case 0
  then show ?case by simp
next
  case (Suc n)
  define d' where "d' = (if cellInk opts img oT lT X Y then markCell fill d X Y else d)"
  have Y: "Y < H"
    using lin_row[of X W Y H] Suc.prems by simp
  have XY: "inGrid d X Y" using gridShape_inGrid[OF Suc.prems(1,2,3,4) Y] .
  have sh: "gridShape d' W H" using Suc.prems(1) by (simp add: d'_def)
  have ig: "inGrid d' c r" using Suc.prems(6) by (simp add: d'_def)
  have ne: "\<not> (c = X \<and> r = Y)" using Suc.prems(3) assms(8) by simp
  have occ': "occupied d' c r \<longleftrightarrow> occupied d c r"
    unfolding d'_def using markCell_occupied[OF XY Suc.prems(6), of fill] ne by simp
  show ?case
  proof (cases "X + 1 = W")
    case True
    have step: "cellLoop opts img oT lT fill (Suc n) X Y d = cellLoop opts img oT lT fill n 0 (Y + 1) d'"
      using True by (simp add: Let_def d'_def assms(2)[symmetric])
    have l: "lin W 0 (Y + 1) = lin W X Y + 1" using lin_wrap[OF True] .
    have pre: "(0::int) \<le> 0" "0 < W" "0 \<le> Y + 1" "lin W 0 (Y + 1) + int n \<le> W * H"
      using Suc.prems l by simp_all
    from Suc.IH[OF sh pre ig] show ?thesis unfolding step occ' .
  next
    case False
    have step: "cellLoop opts img oT lT fill (Suc n) X Y d = cellLoop opts img oT lT fill n (X + 1) Y d'"
      using False by (simp add: Let_def d'_def assms(2)[symmetric])
    have l: "lin W (X + 1) Y = lin W X Y + 1" by (rule lin_next)
    have pre: "0 \<le> X + 1" "X + 1 < W" "0 \<le> Y" "lin W (X + 1) Y + int n \<le> W * H"
      using Suc.prems l False by simp_all
    from Suc.IH[OF sh pre ig] show ?thesis unfolding step occ' .
  qed
qed

lemma cellLoop_shape:
  assumes "gridShape d W H"
    and "W = ceil_div (int (ImageData.width img)) (pixelRatio opts)"
  shows "gridShape (cellLoop opts img oT lT fill n X Y d) W H"
  using assms(1)
proof (induction n arbitrary: X Y d)
  case 0
  then show ?case by simp
next
  case (Suc n)
  define d' where "d' = (if cellInk opts img oT lT X Y then markCell fill d X Y else d)"
  have sh: "gridShape d' W H" using Suc.prems by (simp add: d'_def)
  show ?case
    using Suc.IH[OF sh] by (simp add: Let_def d'_def[symmetric])
qed

lemma generatePixels_uncut_full:
  assumes "\<not> cut opts" "inGrid (Pixels.data (generatePixels opts w h (- 1) False)) c r"
  shows "occupied (Pixels.data (generatePixels opts w h (- 1) False)) c r"
proof -
  define len where "len = ceil_div (ceil_div w (pixelRatio opts)) 32"
  define H where "H = ceil_div h (pixelRatio opts)"
  define xData :: "word32 list" where "xData = (if 0 < len then replicate (nat len) (- 1) else [])"
  have tf: "(if js_rem (ceil_div w (pixelRatio opts)) 32 = 0 then - 1
             else - 1 OR ushr32 (- 1) (js_rem (ceil_div w (pixelRatio opts)) 32)) = (- 1 :: word32)"
    by simp
  have upd: "(replicate (nat len) (- 1 :: word32))[nat (len - 1) := - 1] = replicate (nat len) (- 1)"
    by (rule nth_equalityI) (simp_all add: nth_list_update)
  have d: "Pixels.data (generatePixels opts w h (- 1) False) = replicate (nat H) xData"
    using assms(1)
    by (simp add: generatePixels_def Let_def len_def[symmetric] H_def[symmetric] xData_def tf upd)
  have ig: "0 \<le> r" "r < int (length (replicate (nat H) xData))" "0 \<le> c"
    "c div 32 < int (length (replicate (nat H) xData ! nat r))"
    using assms(2) unfolding d inGrid_def by simp_all
  have r: "nat r < nat H" using ig(1,2) by (simp split: if_splits)
  have k0: "0 \<le> c div 32" using ig(3) by (simp add: pos_imp_zdiv_nonneg_iff)
  have k: "nat (c div 32) < length xData" using ig(4) r k0 by simp
  then have "xData ! nat (c div 32) = - 1" by (auto simp add: xData_def split: if_splits)
  moreover have "nat (31 - c mod 32) < 32" by (simp add: nat_less_iff)
  ultimately have "bit (replicate (nat H) xData ! nat r ! nat (c div 32)) (nat (31 - c mod 32))"
    using r by simp
  then show ?thesis using assms(2) unfolding occupied_def d by simp
qed

text \<open>
  So is the grid built from a mask image of the size of the canvas.
\<close>

lemma canvasGrid_loadMaskImage:
  assumes "\<not> cut opts" "1 \<le> pixelRatio opts"
    and "int (ImageData.width img) = Options.width opts"
    and "int (ImageData.height img) = Options.height opts"
  shows "canvasGrid opts (Pixels.data (loadMaskImage opts img))"
proof -
  define W H where "W = ceil_div (int (ImageData.width img)) (pixelRatio opts)"
    and "H = ceil_div (int (ImageData.height img)) (pixelRatio opts)"
  define d where "d = Pixels.data (generatePixels opts (int (ImageData.width img))
                        (int (ImageData.height img)) (- 1) False)"
  have sh: "gridShape d W H"
    unfolding d_def W_def H_def by (rule generatePixels_shape[OF assms(2)]) simp_all
  have W0: "0 \<le> W" "0 \<le> H" unfolding W_def H_def using assms(2) by (simp_all add: ceil_div_nonneg)
  have WH: "0 \<le> W * H" using W0 by simp
  have res: "Pixels.data (loadMaskImage opts img)
      = cellLoop opts img (opacityThreshold opts) (lightThreshold opts) (- 1) (nat (W * H)) 0 0 d"
    by (simp add: loadMaskImage_def getPixelsFromImgData_def Let_def W_def H_def d_def)
  have sh': "gridShape (Pixels.data (loadMaskImage opts img)) W H"
    unfolding res by (rule cellLoop_shape[OF sh W_def])
  have occ: "occupied (Pixels.data (loadMaskImage opts img)) c r"
    if h: "0 \<le> r" "r < H" "W \<le> c" "c < 32 * ceil_div W 32" for r c
  proof -
    define k where "k = c div 32"
    have c0: "0 \<le> c" using W0 h(3) by simp
    have "k * 32 \<le> c" unfolding k_def using int_div_bounds(1)[of 32 c] by simp
    then have "k * 32 < ceil_div W 32 * 32" using h(4) by simp
    then have cd: "k < ceil_div W 32" by (rule mult_less_cancel_pos[rotated]) simp
    have rl: "nat r < length d" using sh h(1,2) unfolding gridShape_def by linarith
    then have ll: "int (length (d ! nat r)) = ceil_div W 32" using sh unfolding gridShape_def by blast
    have ig: "inGrid d c r"
      unfolding inGrid_def k_def[symmetric] using h(1,2) c0 cd ll sh unfolding gridShape_def by simp
    have Wpos: "0 < W"
    proof (rule ccontr)
      assume "\<not> 0 < W"
      then have "W = 0" using W0 by simp
      then show False using h(3,4) c0 by (simp add: ceil_div_def)
    qed
    have pre: "(0::int) \<le> 0" "lin W 0 0 + int (nat (W * H)) \<le> W * H"
      using WH by (simp_all add: lin_def)
    have "occupied d c r" unfolding d_def using assms(1) ig[unfolded d_def]
      by (rule generatePixels_uncut_full)
    then show ?thesis
      unfolding res using cellLoop_tail[OF sh W_def pre(1) Wpos pre(1,2) ig h(3)] by simp
  qed
  show ?thesis
    unfolding canvasGrid_iff assms(3,4)[symmetric] W_def[symmetric] H_def[symmetric]
    using sh' occ by blast
qed


section \<open>Claims about the boundary mode\<close>




section \<open>Properties of the placement search\<close>

lemma tryPlaceTag_fst_fail:
  "\<not> snd (tryPlaceTag opts g m xpos ypos) \<Longrightarrow> fst (tryPlaceTag opts g m xpos ypos) = g"
  by (simp add: tryPlaceTag_def Let_def split: if_splits)

text \<open>
  As a failed \<^verbatim>\<open>tryPlaceTag\<close> leaves the grid as it was, each loop returns the first
  accepted position of its probes, and it returns for every count that is not negative.
\<close>

lemma xLoop_probes:
  "xLoop opts tagMask xDir ypos (int n) xpos g =
     Some (loopResult opts g tagMask (xProbes opts tagMask xDir ypos n xpos) fst
             (xpos + xDir * pixelRatio opts * int n))"
proof (induction n arbitrary: xpos)
  case 0
  show ?case by (subst xLoop.simps) (simp add: loopResult_def)
next
  case (Suc n)
  define x' where "x' = xpos + xDir * pixelRatio opts"
  have fin: "x' + xDir * pixelRatio opts * int n = xpos + xDir * pixelRatio opts * int (Suc n)"
    by (simp add: x'_def algebra_simps)
  have r: "int (Suc n) \<noteq> 0" "int (Suc n) - 1 = int n" by simp_all
  show ?case
  proof (cases "x' < - Pixels.width tagMask \<or> x' > Options.width opts")
    case True
    then show ?thesis
      by (subst xLoop.simps)
        (simp only: r x'_def[symmetric] Suc.IH fin xProbes.simps if_True if_False append_Nil)
  next
    case False
    show ?thesis
    proof (cases "snd (tryPlaceTag opts g tagMask x' ypos)")
      case True
      then show ?thesis using False
        by (subst xLoop.simps)
          (simp add: r x'_def[symmetric] loopResult_def accepts_def del: of_nat_Suc)
    next
      case F: False
      have g: "fst (tryPlaceTag opts g tagMask x' ypos) = g" by (rule tryPlaceTag_fst_fail[OF F])
      show ?thesis using False F
        by (subst xLoop.simps)
          (simp add: r x'_def[symmetric] g Suc.IH fin loopResult_def accepts_def del: of_nat_Suc)
    qed
  qed
qed

lemma yLoop_probes:
  "yLoop opts tagMask yDir xpos (int n) ypos g =
     Some (loopResult opts g tagMask (yProbes opts tagMask yDir xpos n ypos) snd
             (ypos + yDir * pixelRatio opts * int n))"
proof (induction n arbitrary: ypos)
  case 0
  show ?case by (subst yLoop.simps) (simp add: loopResult_def)
next
  case (Suc n)
  define y' where "y' = ypos + yDir * pixelRatio opts"
  have fin: "y' + yDir * pixelRatio opts * int n = ypos + yDir * pixelRatio opts * int (Suc n)"
    by (simp add: y'_def algebra_simps)
  have r: "int (Suc n) \<noteq> 0" "int (Suc n) - 1 = int n" by simp_all
  show ?case
  proof (cases "y' < - Pixels.height tagMask \<or> y' > Options.height opts")
    case True
    then show ?thesis
      by (subst yLoop.simps)
        (simp only: r y'_def[symmetric] Suc.IH fin yProbes.simps if_True if_False append_Nil)
  next
    case False
    show ?thesis
    proof (cases "snd (tryPlaceTag opts g tagMask xpos y')")
      case True
      then show ?thesis using False
        by (subst yLoop.simps)
          (simp add: r y'_def[symmetric] loopResult_def accepts_def del: of_nat_Suc)
    next
      case F: False
      have g: "fst (tryPlaceTag opts g tagMask xpos y') = g" by (rule tryPlaceTag_fst_fail[OF F])
      show ?thesis using False F
        by (subst yLoop.simps)
          (simp add: r y'_def[symmetric] g Suc.IH fin loopResult_def accepts_def del: of_nat_Suc)
    qed
  qed
qed

lemma xProbes_row: "p \<in> set (xProbes opts tagMask xDir ypos n xpos) \<Longrightarrow> snd p = ypos"
  by (induction n arbitrary: xpos) (auto split: if_splits)

lemma yProbes_col: "p \<in> set (yProbes opts tagMask yDir xpos n ypos) \<Longrightarrow> fst p = xpos"
  by (induction n arbitrary: ypos) (auto split: if_splits)

lemma find_in_set: "find P xs = Some p \<Longrightarrow> p \<in> set xs"
  by (induction xs) (auto split: if_splits)

lemma find_app: "find P (xs @ ys) = (case find P xs of None \<Rightarrow> find P ys | Some p \<Rightarrow> Some p)"
  by (induction xs) auto

lemma xPhase_probes:
  assumes "0 \<le> rest"
  shows "xPhase opts tagMask xDir ypos rest xpos g =
     Some (loopResult opts g tagMask (xPhaseProbes opts tagMask xDir ypos rest xpos) fst
             (xpos + xDir * pixelRatio opts * rest))"
proof -
  have "xLoop opts tagMask xDir ypos rest xpos g =
     Some (loopResult opts g tagMask (xProbes opts tagMask xDir ypos (nat rest) xpos) fst
             (xpos + xDir * pixelRatio opts * rest))"
    using xLoop_probes[of opts tagMask xDir ypos "nat rest" xpos g] assms by simp
  then show ?thesis
    by (simp add: xPhase_def xPhaseProbes_def loopResult_def)
qed

lemma yPhase_probes:
  assumes "0 \<le> rest"
  shows "yPhase opts tagMask yDir xpos rest ypos g =
     Some (loopResult opts g tagMask (yPhaseProbes opts tagMask yDir xpos rest ypos) snd
             (ypos + yDir * pixelRatio opts * rest))"
proof -
  have "yLoop opts tagMask yDir xpos rest ypos g =
     Some (loopResult opts g tagMask (yProbes opts tagMask yDir xpos (nat rest) ypos) snd
             (ypos + yDir * pixelRatio opts * rest))"
    using yLoop_probes[of opts tagMask yDir xpos "nat rest" ypos g] assms by simp
  then show ?thesis
    by (simp add: yPhase_def yPhaseProbes_def loopResult_def)
qed

lemma xPhaseProbes_row: "p \<in> set (xPhaseProbes opts tagMask xDir ypos rest xpos) \<Longrightarrow> snd p = ypos"
  by (auto simp add: xPhaseProbes_def dest: xProbes_row split: if_splits)

lemma yPhaseProbes_col: "p \<in> set (yPhaseProbes opts tagMask yDir xpos rest ypos) \<Longrightarrow> fst p = xpos"
  by (auto simp add: yPhaseProbes_def dest: yProbes_col split: if_splits)

lemma tdiv_nonneg_nonneg: "0 \<le> a \<Longrightarrow> 0 \<le> b \<Longrightarrow> 0 \<le> tdiv a b"
  unfolding tdiv_def by (intro mult_nonneg_nonneg) (simp_all add: div_int_pos_iff sgn_if)

lemma whRest_nonneg:
  assumes "0 \<le> Options.width opts" "0 \<le> Options.height opts" "0 \<le> step"
  shows "0 \<le> whRest opts step"
  unfolding whRest_def using assms by (intro tdiv_nonneg_nonneg) simp_all

text \<open>
  The ring loop terminates because \<open>step\<close> grows up to twice \<open>endLen\<close>; with a
  canvas of non-negative size every run length is non-negative, so the inner loops return.
\<close>

lemma spiral_probes:
  assumes "0 \<le> Options.width opts" "0 \<le> Options.height opts" "0 \<le> step"
  shows "spiral opts tagMask endLen step xDir yDir xpos ypos g =
     Some (firstAccepted opts g tagMask (spiralProbes opts tagMask endLen step xDir yDir xpos ypos))"
  using assms
proof (induction opts tagMask endLen step xDir yDir xpos ypos arbitrary: g rule: spiralProbes.induct)
  case (1 opts tagMask endLen step xDir yDir xpos ypos)
  show ?case
  proof (cases "step div 2 < endLen")
    case False
    then show ?thesis
      by (subst spiral.simps, subst spiralProbes.simps) (simp add: firstAccepted_def)
  next
    case True
    define x1 rest y1 where "x1 = xpos + xDir * pixelRatio opts * step"
      and "rest = whRest opts step" and "y1 = ypos + yDir * pixelRatio opts * whRest opts step"
    define xps yps where "xps = xPhaseProbes opts tagMask xDir ypos step xpos"
      and "yps = yPhaseProbes opts tagMask yDir x1 rest ypos"
    have rest: "0 \<le> rest" unfolding rest_def using "1.prems" by (rule whRest_nonneg)
    have xp: "xPhase opts tagMask xDir ypos step xpos g = Some (loopResult opts g tagMask xps fst x1)"
      unfolding xps_def x1_def using "1.prems"(3) by (rule xPhase_probes)
    have yp: "yPhase opts tagMask yDir x1 (whRest opts step) ypos g = Some (loopResult opts g tagMask yps snd y1)"
      unfolding yps_def y1_def rest_def using rest[unfolded rest_def] by (rule yPhase_probes)
    have IH: "spiral opts tagMask endLen (step + 1) (- xDir) (- yDir) x1 y1 g =
       Some (firstAccepted opts g tagMask
               (spiralProbes opts tagMask endLen (step + 1) (- xDir) (- yDir) x1 y1))"
      unfolding x1_def y1_def using "1.IH"[of g] True "1.prems" by simp
    have probes: "spiralProbes opts tagMask endLen step xDir yDir xpos ypos =
        xps @ yps @ spiralProbes opts tagMask endLen (step + 1) (- xDir) (- yDir) x1 y1"
      using True
      by (subst spiralProbes.simps) (simp add: xps_def yps_def x1_def y1_def rest_def)
    have sp: "spiral opts tagMask endLen step xDir yDir xpos ypos g =
       (case xPhase opts tagMask xDir ypos step xpos g of
          None \<Rightarrow> None
        | Some (g1, x1', found1) \<Rightarrow>
            if found1 then Some (g1, Some (x1', ypos))
            else (case yPhase opts tagMask yDir x1' (whRest opts step) ypos g1 of
                    None \<Rightarrow> None
                  | Some (g2, y2, found2) \<Rightarrow>
                      if found2 then Some (g2, Some (x1', y2))
                      else spiral opts tagMask endLen (step + 1) (- xDir) (- yDir) x1' y2 g2))"
      using True by (subst spiral.simps) simp
    show ?thesis
    proof (cases "find (accepts opts g tagMask) xps")
      case (Some p)
      have "snd p = ypos" using find_in_set[OF Some] unfolding xps_def by (rule xPhaseProbes_row)
      then have "(fst p, ypos) = p" by (cases p) simp
      then show ?thesis
        unfolding sp xp probes by (simp add: loopResult_def firstAccepted_def find_app Some)
    next
      case None
      note N = None
      show ?thesis
      proof (cases "find (accepts opts g tagMask) yps")
        case (Some p)
        have "fst p = x1" using find_in_set[OF Some] unfolding yps_def by (rule yPhaseProbes_col)
        then have "(x1, snd p) = p" by (cases p) simp
        then show ?thesis
          unfolding sp xp probes
          by (simp add: loopResult_def firstAccepted_def find_app Some N yp)
      next
        case None
        show ?thesis
          unfolding sp xp probes
          by (simp add: loopResult_def firstAccepted_def find_app None N yp IH)
      qed
    qed
  qed
qed

lemma placeTag_probes:
  assumes "0 \<le> Options.width opts" "0 \<le> Options.height opts"
  shows "placeTag opts tagMask xDir yDir g =
     Some (firstAccepted opts g tagMask (placeProbes opts tagMask xDir yDir))"
proof -
  define startX startY where "startX = tdiv (Options.width opts - Pixels.width tagMask) 2"
    and "startY = tdiv (Options.height opts - Pixels.height tagMask) 2"
  obtain g' b where tp: "tryPlaceTag opts g tagMask startX startY = (g', b)"
    by (cases "tryPlaceTag opts g tagMask startX startY")
  show ?thesis
  proof (cases b)
    case True
    then show ?thesis
      by (simp add: placeTag_def placeProbes_def Let_def firstAccepted_def accepts_def
          startX_def[symmetric] startY_def[symmetric] tp)
  next
    case False
    then have "\<not> snd (tryPlaceTag opts g tagMask startX startY)" by (simp add: tp)
    from tryPlaceTag_fst_fail[OF this] have "g' = g" by (simp add: tp)
    then show ?thesis using False spiral_probes[OF assms, of 1 tagMask _ xDir yDir startX startY g]
      by (simp add: placeTag_def placeProbes_def Let_def firstAccepted_def accepts_def
          startX_def[symmetric] startY_def[symmetric] tp)
  qed
qed


section \<open>Claims about the placement search\<close>



section \<open>Properties of the layout orchestrator\<close>

lemma getTagPixels_Some:
  assumes "getTagPixels opts img = Some p"
  shows "0 \<le> Options.width opts" "0 \<le> Options.height opts"
  using assms by (auto simp add: getTagPixels_def Let_def split: if_splits)

text \<open>
  \<^verbatim>\<open>handleTag\<close> always returns: the search is only run for a mask that fits the canvas.
  It keeps the text and weight of the tag and does not touch the weight range.
\<close>

lemma handleTag_total:
  "\<exists>st' r. handleTag opts st tag probe = Some (st', r) \<and>
     TagData.text r = Tag.text tag \<and> TagData.weight r = Tag.weight tag \<and>
     fontSize r = fontSizeOf opts st (Tag.weight tag) \<and>
     maxTagWeight st' = maxTagWeight st \<and> minTagWeight st' = minTagWeight st \<and>
     promised st' = promised st"
proof (cases "getTagPixels opts (imgData probe)")
  case None
  then show ?thesis by (simp add: handleTag_def Let_def)
next
  case (Some p)
  define dx dy :: int where "dx = (if randomX probe then 1 else - 1)"
    and "dy = (if randomY probe then 1 else - 1)"
  have pt: "placeTag opts p dx dy (pixels st)
      = Some (firstAccepted opts (pixels st) p (placeProbes opts p dx dy))"
    by (rule placeTag_probes[OF getTagPixels_Some[OF Some]])
  obtain g res where fa: "firstAccepted opts (pixels st) p (placeProbes opts p dx dy) = (g, res)"
    by (cases "firstAccepted opts (pixels st) p (placeProbes opts p dx dy)")
  show ?thesis
  proof (cases res)
    case None
    show ?thesis
      unfolding handleTag_def Let_def Some option.case dx_def[symmetric] dy_def[symmetric] pt fa None
      by simp
  next
    case (Some pos)
    obtain px py where pos: "pos = (px, py)" by (cases pos)
    show ?thesis
      unfolding handleTag_def Let_def \<open>getTagPixels opts (imgData probe) = Some p\<close> option.case
        dx_def[symmetric] dy_def[symmetric] pt fa Some pos
      by simp
  qed
qed

lemma drawLoop_total:
  "\<exists>st' rs. drawLoop opts env i ts st = Some (st', rs) \<and>
     map TagData.text rs = map Tag.text ts \<and> map TagData.weight rs = map Tag.weight ts \<and>
     (\<forall>r\<in>set rs. fontSize r = fontSizeOf opts st (TagData.weight r)) \<and>
     maxTagWeight st' = maxTagWeight st \<and> minTagWeight st' = minTagWeight st \<and>
     promised st' = promised st"
proof (induction ts arbitrary: i st)
  case Nil
  show ?case by simp
next
  case (Cons t ts)
  obtain st1 r where h: "handleTag opts st t (env i) = Some (st1, r)"
    "TagData.text r = Tag.text t" "TagData.weight r = Tag.weight t"
    "fontSize r = fontSizeOf opts st (Tag.weight t)"
    "maxTagWeight st1 = maxTagWeight st" "minTagWeight st1 = minTagWeight st"
    "promised st1 = promised st"
    using handleTag_total[of opts st t "env i"] by blast
  obtain st2 rs where d: "drawLoop opts env (Suc i) ts st1 = Some (st2, rs)"
    "map TagData.text rs = map Tag.text ts" "map TagData.weight rs = map Tag.weight ts"
    "\<forall>r\<in>set rs. fontSize r = fontSizeOf opts st1 (TagData.weight r)"
    "maxTagWeight st2 = maxTagWeight st1" "minTagWeight st2 = minTagWeight st1"
    "promised st2 = promised st1"
    using Cons.IH[of "Suc i" st1] by blast
  have fs: "fontSizeOf opts st1 w = fontSizeOf opts st w" for w
    unfolding fontSizeOf_def h(5,6) ..
  show ?case using h d by (simp add: fs)
qed

lemma sortTags_mset [simp]: "mset (sortTags tags) = mset tags"
  by (simp add: sortTags_def)

lemma sortTags_length [simp]: "length (sortTags tags) = length tags"
  by (simp add: sortTags_def)

lemma sorted_neg_desc: "sorted (map (\<lambda>t. - f t) ts) \<Longrightarrow> sorted_wrt (\<lambda>a b. b \<le> a) (map f (ts :: 'a list))"
  for f :: "'a \<Rightarrow> real"
  by (induction ts) auto

lemma sortTags_desc: "sorted_wrt (\<lambda>a b. b \<le> a) (map Tag.weight (sortTags tags))"
  unfolding sortTags_def by (rule sorted_neg_desc) (rule sorted_sort_key)

lemma observeWeight_fields [simp]:
  "pixels (observeWeight t st) = pixels st" "promised (observeWeight t st) = promised st"
  by (simp_all add: observeWeight_def Let_def split: option.splits)



lemma fold_observeWeight_fields [simp]:
  "pixels (fold observeWeight tags st) = pixels st"
  "promised (fold observeWeight tags st) = promised st"
  by (induction tags arbitrary: st) simp_all




lemma draw_result:
  assumes "tags \<noteq> []" "promised st = Resolved"
  shows "\<exists>st' result.
     draw opts env tags st = Some (Inr (st', result, sortTags tags)) \<and>
     map TagData.text result = map Tag.text (sortTags tags) \<and>
     map TagData.weight result = map Tag.weight (sortTags tags) \<and>
     (\<forall>r\<in>set result.
        fontSize r = fontSizeOf opts (fold observeWeight tags st) (TagData.weight r)) \<and>
     maxTagWeight st' = maxTagWeight (fold observeWeight tags st) \<and>
     minTagWeight st' = minTagWeight (fold observeWeight tags st) \<and>
     promised st' = Resolved"
proof -
  obtain st' rs where d: "drawLoop opts env 0 (sortTags tags) (fold observeWeight tags st) = Some (st', rs)"
    "map TagData.text rs = map Tag.text (sortTags tags)"
    "map TagData.weight rs = map Tag.weight (sortTags tags)"
    "\<forall>r\<in>set rs. fontSize r = fontSizeOf opts (fold observeWeight tags st) (TagData.weight r)"
    "maxTagWeight st' = maxTagWeight (fold observeWeight tags st)"
    "minTagWeight st' = minTagWeight (fold observeWeight tags st)"
    "promised st' = promised (fold observeWeight tags st)"
    using drawLoop_total[of opts env 0 "sortTags tags" "fold observeWeight tags st"] by blast
  have "draw opts env tags st = Some (Inr (st', rs, sortTags tags))"
    using assms d(1) by (simp add: draw_def performDraw_def)
  then show ?thesis using d assms(2) by simp
qed

lemma pair_maps:
  assumes "map f xs = map f' ys" "map g xs = map g' ys"
  shows "map (\<lambda>a. (f a, g a)) xs = map (\<lambda>b. (f' b, g' b)) ys"
proof (rule nth_equalityI)
  show len: "length (map (\<lambda>a. (f a, g a)) xs) = length (map (\<lambda>b. (f' b, g' b)) ys)"
    using arg_cong[OF assms(1), of length] by simp
  fix i assume "i < length (map (\<lambda>a. (f a, g a)) xs)"
  then have i: "i < length xs" "i < length ys" using len by simp_all
  have "map f xs ! i = map f' ys ! i" "map g xs ! i = map g' ys ! i" by (simp_all only: assms)
  then show "map (\<lambda>a. (f a, g a)) xs ! i = map (\<lambda>b. (f' b, g' b)) ys ! i"
    using i by simp
qed



section \<open>Claims about the layout orchestrator\<close>

text \<open>
  Claim C6. For every non-empty batch, on an instance whose mask image (if any) has loaded,
  \<^verbatim>\<open>draw\<close> completes and returns exactly one result per input tag, with the text and
  weight of that tag, in order of descending weight. This holds whatever the placement of
  the single tags does: a tag that cannot be placed keeps its result.
\<close>

theorem draw_one_result_per_tag:
  assumes "tags \<noteq> []" and "promised st = Resolved"
  shows "\<exists>st' result tags'.
     draw opts env tags st = Some (Inr (st', result, tags')) \<and>
     length result = length tags \<and>
     sorted_wrt (\<lambda>a b. b \<le> a) (map TagData.weight result) \<and>
     mset (map (\<lambda>r. (TagData.text r, TagData.weight r)) result)
       = mset (map (\<lambda>t. (Tag.text t, Tag.weight t)) tags)"
proof -
  obtain st' result where d: "draw opts env tags st = Some (Inr (st', result, sortTags tags))"
    "map TagData.text result = map Tag.text (sortTags tags)"
    "map TagData.weight result = map Tag.weight (sortTags tags)"
    using draw_result[OF assms, of opts env] by blast
  have l: "length result = length tags"
    using arg_cong[OF d(2), of length] by simp
  have s: "sorted_wrt (\<lambda>a b. b \<le> a) (map TagData.weight result)"
    unfolding d(3) by (rule sortTags_desc)
  have "map (\<lambda>r. (TagData.text r, TagData.weight r)) result
      = map (\<lambda>t. (Tag.text t, Tag.weight t)) (sortTags tags)"
    by (rule pair_maps[OF d(2,3)])
  then have m: "mset (map (\<lambda>r. (TagData.text r, TagData.weight r)) result)
       = mset (map (\<lambda>t. (Tag.text t, Tag.weight t)) tags)"
    by (simp only: mset_map sortTags_mset)
  show ?thesis using d(1) l s m by blast
qed

theorem draw_one_result_per_tag_witness:
  "\<exists>st' result tags'.
     draw exOpts8 dotEnv exTags fresh8 = Some (Inr (st', result, tags')) \<and> length result = 3"
proof -
  have a: "exTags \<noteq> []" by code_simp
  have b: "promised fresh8 = Resolved" by code_simp
  have c: "length exTags = 3" by code_simp
  from draw_one_result_per_tag[OF a b, of exOpts8 dotEnv] c show ?thesis by auto
qed









text \<open>
  Claim C10. For every non-empty batch, on an instance whose mask image (if any) has loaded,
  the caller's array is sorted in place: after \<^verbatim>\<open>draw\<close> it holds the same tags in
  order of descending weight.
\<close>

theorem draw_sorts_callers_array:
  assumes "tags \<noteq> []" and "promised st = Resolved"
  shows "\<exists>st' result tags'.
     draw opts env tags st = Some (Inr (st', result, tags')) \<and>
     tags' = sortTags tags \<and>
     sorted_wrt (\<lambda>a b. b \<le> a) (map Tag.weight tags') \<and>
     mset tags' = mset tags"
proof -
  obtain st' result where d: "draw opts env tags st = Some (Inr (st', result, sortTags tags))"
    using draw_result[OF assms, of opts env] by blast
  show ?thesis using d sortTags_desc[of tags] sortTags_mset[of tags] by blast
qed

theorem draw_sorts_callers_array_witness:
  "\<exists>st' result.
     draw exOpts8 dotEnv exTags fresh8
       = Some (Inr (st', result, [mkTag ''b'' 3, mkTag ''c'' 2, mkTag ''a'' 1]))"
proof -
  have a: "exTags \<noteq> []" by code_simp
  have b: "promised fresh8 = Resolved" by code_simp
  have c: "sortTags exTags = [mkTag ''b'' 3, mkTag ''c'' 2, mkTag ''a'' 1]" by code_simp
  from draw_sorts_callers_array[OF a b, of exOpts8 dotEnv] show ?thesis
    unfolding c by metis
qed

end
